theory Spec2Isabelle
  imports Main "HOL-Library.Sublist"
begin

section \<open>The IR consumed by the rewriter\<close>

text \<open>
  \<^verbatim>\<open>xdsl/rewriter.py\<close> imports \<^verbatim>\<open>Operation\<close>, \<^verbatim>\<open>SSAValue\<close>, \<^verbatim>\<open>Region\<close>, \<^verbatim>\<open>Block\<close> from
  \<^verbatim>\<open>xdsl.ir\<close> and \<^verbatim>\<open>ModuleOp\<close> from \<^verbatim>\<open>xdsl.dialects.builtin\<close>. The rewriter reads and writes
  only the fields below. An SSA value is a handle compared by identity; the number is
  that identity. The Python class of an operation is its \<open>kind\<close>;
  \<^verbatim>\<open>isinstance(op, ModuleOp)\<close> is \<open>kind op = ModuleOp\<close>. Parent back-references are not
  part of the model.
\<close>

datatype SSAValue = SSAValue nat

datatype op_kind = ModuleOp | OtherOp string

datatype Operation =
  Operation (kind: op_kind) (operands: "SSAValue list") (results: "SSAValue list")
    (regions: "Region list") (attributes: "(string \<times> string) list")
and Region = Region (blocks: "Block list")
and Block = Block (args: "SSAValue list") (ops: "Operation list")

text \<open>Assignments to the two fields of an operation that the rewriter writes.\<close>

fun set_operands :: "Operation \<Rightarrow> SSAValue list \<Rightarrow> Operation" where
  "set_operands (Operation k os rs rgs at) os' = Operation k os' rs rgs at"

fun set_regions :: "Operation \<Rightarrow> Region list \<Rightarrow> Operation" where
  "set_regions (Operation k os rs rgs at) rgs' = Operation k os rs rgs' at"

text \<open>
  Modelled from the spec: the constructors and appending methods of \<^verbatim>\<open>xdsl.ir\<close>, which
  is not among the sources. "A block supports being constructed empty, then populated
  by appending operations and by accepting a fixed list of argument values at
  construction. A region supports being constructed empty, then populated by appending
  blocks." \<^verbatim>\<open>Block()\<close> is given no argument values, so the block it builds has none
  (\<^verbatim>\<open>frontend/code_generation.py\<close> builds its entry block the same way and then calls
  \<^verbatim>\<open>insert_arg\<close> for each argument).
\<close>

definition Block_init :: Block where
  "Block_init = Block [] []"

definition add_ops :: "Block \<Rightarrow> Operation list \<Rightarrow> Block" where
  "add_ops b new = Block (args b) (ops b @ new)"

definition Region_init :: Region where
  "Region_init = Region []"

definition add_block :: "Region \<Rightarrow> Block \<Rightarrow> Region" where
  "add_block r b = Region (blocks r @ [b])"

definition add_region :: "Operation \<Rightarrow> Region \<Rightarrow> Operation" where
  "add_region op r = set_regions op (regions op @ [r])"

section \<open>Failures\<close>

text \<open>
  Every exception the rewriter can raise is a value: the failed \<^verbatim>\<open>assert\<close> of
  \<^verbatim>\<open>bookkeep_results\<close>, the out-of-range list index and the \<^verbatim>\<open>Exception\<close> of
  \<^verbatim>\<open>rewrite_module\<close>, and the call of an object that is not callable.
\<close>

datatype error = AssertionError | IndexError | TypeError | RewriteException

text \<open>Python's \<^verbatim>\<open>xs[i]\<close> for a non-negative index.\<close>

definition py_index :: "'a list \<Rightarrow> nat \<Rightarrow> error + 'a" where
  "py_index xs i = (if i < length xs then Inr (xs ! i) else Inl IndexError)"

section \<open>RewriteAction and RewritePattern\<close>

record RewriteAction =
  new_ops :: "Operation list"
  new_results :: "SSAValue list"

definition RewriteAction_init :: "Operation list \<Rightarrow> SSAValue list option \<Rightarrow> RewriteAction" where
  "RewriteAction_init nops nres =
     (case nres of
        Some r \<Rightarrow> \<lparr>new_ops = nops, new_results = r\<rparr>
      | None \<Rightarrow>
          if length nops = 0 then \<lparr>new_ops = nops, new_results = []\<rparr>
          else \<lparr>new_ops = nops, new_results = results (last nops)\<rparr>)"

text \<open>
  \<^verbatim>\<open>match_and_rewrite(op, new_operands)\<close>: "A side-effect free rewrite pattern",
  \<open>None\<close> when the pattern did not match.
\<close>

type_synonym RewritePattern = "Operation \<Rightarrow> SSAValue list \<Rightarrow> RewriteAction option"

section \<open>OperandUpdater\<close>

record OperandUpdater =
  result_mapping :: "SSAValue \<rightharpoonup> SSAValue"

text \<open>
  The \<^verbatim>\<open>for\<close> loop of \<^verbatim>\<open>bookkeep_results\<close>: one dictionary assignment per pair, in
  order, so a later pair overwrites an earlier one with the same key.
\<close>

fun record_pairs :: "(SSAValue \<rightharpoonup> SSAValue) \<Rightarrow> (SSAValue \<times> SSAValue) list \<Rightarrow> (SSAValue \<rightharpoonup> SSAValue)" where
  "record_pairs m [] = m"
| "record_pairs m ((old_res, new_res) # ps) = record_pairs (m(old_res \<mapsto> new_res)) ps"

definition bookkeep_results :: "OperandUpdater \<Rightarrow> Operation \<Rightarrow> RewriteAction \<Rightarrow> error + OperandUpdater" where
  "bookkeep_results u old_op action =
     (if length (results old_op) = 0 then Inr u
      else if length (results old_op) \<noteq> length (new_results action) then Inl AssertionError
      else Inr (u\<lparr>result_mapping :=
                   record_pairs (result_mapping u) (zip (results old_op) (new_results action))\<rparr>))"

definition get_new_value :: "OperandUpdater \<Rightarrow> SSAValue \<Rightarrow> SSAValue" where
  "get_new_value u v = (case result_mapping u v of Some v' \<Rightarrow> v' | None \<Rightarrow> v)"

definition get_new_operands :: "OperandUpdater \<Rightarrow> Operation \<Rightarrow> SSAValue list" where
  "get_new_operands u op = map (get_new_value u) (operands op)"

definition update_operands :: "OperandUpdater \<Rightarrow> Operation \<Rightarrow> Operation" where
  "update_operands u op = set_operands op (get_new_operands u op)"

text \<open>
  \<^verbatim>\<open>result_mapping: Dict[SSAValue, SSAValue] = field(default_factory=dict())\<close>. A default
  factory is called, with no argument, by the constructor the dataclass generates when
  the field is not supplied. An object of Python is here either something that can be
  called or a plain instance; calling an instance raises \<^verbatim>\<open>TypeError\<close>. The source passes
  \<^verbatim>\<open>dict()\<close>, the value of a call made when the class body runs: an empty dictionary,
  an instance.
\<close>

datatype 'a py_object = Callable "unit \<Rightarrow> error + 'a" | Instance 'a

definition py_call :: "'a py_object \<Rightarrow> error + 'a" where
  "py_call f = (case f of Callable g \<Rightarrow> g () | Instance x \<Rightarrow> Inl TypeError)"

definition result_mapping_default_factory :: "(SSAValue \<rightharpoonup> SSAValue) py_object" where
  "result_mapping_default_factory = Instance Map.empty"

definition OperandUpdater_init :: "(SSAValue \<rightharpoonup> SSAValue) option \<Rightarrow> error + OperandUpdater" where
  "OperandUpdater_init arg =
     (case arg of
        Some m \<Rightarrow> Inr \<lparr>result_mapping = m\<rparr>
      | None \<Rightarrow>
          (case py_call result_mapping_default_factory of
             Inl e \<Rightarrow> Inl e
           | Inr m \<Rightarrow> Inr \<lparr>result_mapping = m\<rparr>))"

section \<open>PatternRewriteWalker\<close>

text \<open>
  The walker object: the two configuration fields and \<^verbatim>\<open>_updater\<close>, the bookkeeping it
  mutates during a walk. \<open>offered\<close> is not a field of the source: it logs, in call order,
  each operation handed to \<^verbatim>\<open>match_and_rewrite\<close>, which is what a pattern that records
  its calls observes. No function of the walker reads it.
\<close>

record PatternRewriteWalker =
  pattern :: RewritePattern
  walk_regions_first :: bool
  updater :: OperandUpdater
  offered :: "Operation list"

text \<open>
  \<^verbatim>\<open>_updater: OperandUpdater = field(init=False, default_factory=OperandUpdater)\<close>: the
  generated constructor takes the pattern and, optionally, the flag (default
  \<^verbatim>\<open>False\<close>), and calls the class \<^verbatim>\<open>OperandUpdater\<close> with no argument.
\<close>

definition updater_default_factory :: "OperandUpdater py_object" where
  "updater_default_factory = Callable (\<lambda>_. OperandUpdater_init None)"

definition PatternRewriteWalker_init :: "RewritePattern \<Rightarrow> bool option \<Rightarrow> error + PatternRewriteWalker" where
  "PatternRewriteWalker_init p flag =
     (case py_call updater_default_factory of
        Inl e \<Rightarrow> Inl e
      | Inr u \<Rightarrow>
          Inr \<lparr>pattern = p,
               walk_regions_first = (case flag of Some b \<Rightarrow> b | None \<Rightarrow> False),
               updater = u, offered = []\<rparr>)"

text \<open>
  The result of a method of the walker: \<open>None\<close> when the call does not return within the
  given recursion depth, \<open>Some (Inl e)\<close> when it raises \<open>e\<close>, \<open>Some (Inr x)\<close> when it
  returns \<open>x\<close>. The walker catches no exception: \<open>and_then\<close> passes a failure of the first
  computation on.
\<close>

type_synonym 'a outcome = "(error + 'a) option"

definition and_then :: "'a outcome \<Rightarrow> ('a \<Rightarrow> 'b outcome) \<Rightarrow> 'b outcome" where
  "and_then m f = (case m of None \<Rightarrow> None | Some (Inl e) \<Rightarrow> Some (Inl e) | Some (Inr x) \<Rightarrow> f x)"

definition returned :: "('a \<times> 'b) outcome \<Rightarrow> 'a option" where
  "returned r = (case r of Some (Inr (x, _)) \<Rightarrow> Some x | _ \<Rightarrow> None)"

type_synonym rewriter =
  "PatternRewriteWalker \<Rightarrow> Operation \<Rightarrow> (Operation list \<times> PatternRewriteWalker) outcome"

text \<open>
  The loops of the walker, over the recursive call \<open>rw\<close> they make on each operation.
  \<^verbatim>\<open>for new_op in action.new_ops: new_ops.extend(self.rewrite_op(new_op))\<close>, the list
  being extended is \<open>acc\<close>:
\<close>

fun rewrite_new_ops ::
  "rewriter \<Rightarrow> PatternRewriteWalker \<Rightarrow> Operation list \<Rightarrow> Operation list
    \<Rightarrow> (Operation list \<times> PatternRewriteWalker) outcome" where
  "rewrite_new_ops rw w [] acc = Some (Inr (acc, w))"
| "rewrite_new_ops rw w (new_op # rest) acc =
     and_then (rw w new_op) (\<lambda>(out, w'). rewrite_new_ops rw w' rest (acc @ out))"

text \<open>\<^verbatim>\<open>for sub_op in block.ops: new_block.add_ops(self.rewrite_op(sub_op))\<close>:\<close>

fun rewrite_block_ops ::
  "rewriter \<Rightarrow> PatternRewriteWalker \<Rightarrow> Operation list \<Rightarrow> Block
    \<Rightarrow> (Block \<times> PatternRewriteWalker) outcome" where
  "rewrite_block_ops rw w [] new_block = Some (Inr (new_block, w))"
| "rewrite_block_ops rw w (sub_op # rest) new_block =
     and_then (rw w sub_op) (\<lambda>(out, w'). rewrite_block_ops rw w' rest (add_ops new_block out))"

text \<open>\<^verbatim>\<open>for block in region.blocks: new_block = Block(); ...; new_region.add_block(new_block)\<close>:\<close>

fun rewrite_blocks ::
  "rewriter \<Rightarrow> PatternRewriteWalker \<Rightarrow> Block list \<Rightarrow> Region
    \<Rightarrow> (Region \<times> PatternRewriteWalker) outcome" where
  "rewrite_blocks rw w [] new_region = Some (Inr (new_region, w))"
| "rewrite_blocks rw w (block # rest) new_region =
     and_then (rewrite_block_ops rw w (ops block) Block_init)
       (\<lambda>(new_block, w'). rewrite_blocks rw w' rest (add_block new_region new_block))"

text \<open>\<^verbatim>\<open>for region in op.regions: new_region = Region(); ...; new_regions.append(new_region)\<close>:\<close>

fun rewrite_regions ::
  "rewriter \<Rightarrow> PatternRewriteWalker \<Rightarrow> Region list \<Rightarrow> Region list
    \<Rightarrow> (Region list \<times> PatternRewriteWalker) outcome" where
  "rewrite_regions rw w [] new_regions = Some (Inr (new_regions, w))"
| "rewrite_regions rw w (region # rest) new_regions =
     and_then (rewrite_blocks rw w (blocks region) Region_init)
       (\<lambda>(new_region, w'). rewrite_regions rw w' rest (new_regions @ [new_region]))"

text \<open>
  The body of \<^verbatim>\<open>rewrite_op_regions\<close>; it ends with \<^verbatim>\<open>op.regions = []\<close> and one
  \<^verbatim>\<open>op.add_region(region)\<close> for each new region.
\<close>

definition rewrite_op_regions_with ::
  "rewriter \<Rightarrow> PatternRewriteWalker \<Rightarrow> Operation \<Rightarrow> (Operation \<times> PatternRewriteWalker) outcome" where
  "rewrite_op_regions_with rw w op =
     and_then (rewrite_regions rw w (regions op) [])
       (\<lambda>(new_regions, w'). Some (Inr (foldl add_region (set_regions op []) new_regions, w')))"

text \<open>
  \<^verbatim>\<open>rewrite_op\<close>. Its first argument bounds the depth of the nested calls of
  \<^verbatim>\<open>rewrite_op\<close>: the recursion follows the operations a pattern produces, so it need not
  end. The operation is mutated in place in the source; here each step returns the
  operation with the field assigned.
\<close>

primrec rewrite_op :: "nat \<Rightarrow> rewriter" where
  "rewrite_op 0 = (\<lambda>w op. None)"
| "rewrite_op (Suc n) = (\<lambda>w op.
     and_then
       (if walk_regions_first w then rewrite_op_regions_with (rewrite_op n) w op
        else Some (Inr (op, w)))
       (\<lambda>(op1, w1).
          let action = pattern w1 op1 (get_new_operands (updater w1) op1);
              w2 = w1\<lparr>offered := offered w1 @ [op1]\<rparr>
          in case action of
               Some a \<Rightarrow>
                 (case bookkeep_results (updater w2) op1 a of
                    Inl e \<Rightarrow> Some (Inl e)
                  | Inr u \<Rightarrow> rewrite_new_ops (rewrite_op n) (w2\<lparr>updater := u\<rparr>) (new_ops a) [])
             | None \<Rightarrow>
                 let op2 = update_operands (updater w2) op1
                 in if \<not> walk_regions_first w2
                    then and_then (rewrite_op_regions_with (rewrite_op n) w2 op2)
                           (\<lambda>(op3, w3). Some (Inr ([op3], w3)))
                    else Some (Inr ([op2], w2))))"

definition rewrite_op_regions ::
  "nat \<Rightarrow> PatternRewriteWalker \<Rightarrow> Operation \<Rightarrow> (Operation \<times> PatternRewriteWalker) outcome" where
  "rewrite_op_regions n w op = rewrite_op_regions_with (rewrite_op n) w op"

text \<open>\<^verbatim>\<open>rewrite_module\<close>, with its index \<^verbatim>\<open>new_ops[1]\<close> as written.\<close>

definition rewrite_module ::
  "nat \<Rightarrow> PatternRewriteWalker \<Rightarrow> Operation \<Rightarrow> (Operation \<times> PatternRewriteWalker) outcome" where
  "rewrite_module n w op =
     and_then (rewrite_op n w op)
       (\<lambda>(res_ops, w').
          if length res_ops = 1 then
            (case py_index res_ops 1 of
               Inl e \<Rightarrow> Some (Inl e)
             | Inr res_op \<Rightarrow>
                 if kind res_op = ModuleOp then Some (Inr (res_op, w'))
                 else Some (Inl RewriteException))
          else Some (Inl RewriteException))"

section \<open>Relations and sample inputs used in the statements\<close>

text \<open>
  \<open>extends w w'\<close>: \<open>w'\<close> is a later state of the walker \<open>w\<close>: the same pattern and flag,
  and a log of offered operations that continues the log of \<open>w\<close>.
\<close>

definition extends :: "PatternRewriteWalker \<Rightarrow> PatternRewriteWalker \<Rightarrow> bool" where
  "extends w w' \<longleftrightarrow>
     pattern w' = pattern w \<and> walk_regions_first w' = walk_regions_first w \<and>
     prefix (offered w) (offered w')"

text \<open>
  A walker at the start of a walk, as the constructor is meant to leave it: no
  substitution recorded, nothing offered yet.
\<close>

definition walker_with :: "RewritePattern \<Rightarrow> bool \<Rightarrow> PatternRewriteWalker" where
  "walker_with p flag =
     \<lparr>pattern = p, walk_regions_first = flag,
      updater = \<lparr>result_mapping = Map.empty\<rparr>, offered = []\<rparr>"

text \<open>The pattern that never matches, and the pattern that answers every operation with one action.\<close>

definition never_match :: RewritePattern where
  "never_match op new_operands = None"

definition always_replace :: "RewriteAction \<Rightarrow> RewritePattern" where
  "always_replace a op new_operands = Some a"

text \<open>An operation without regions and attributes.\<close>

definition plain_op :: "string \<Rightarrow> SSAValue list \<Rightarrow> SSAValue list \<Rightarrow> Operation" where
  "plain_op nm os rs = Operation (OtherOp nm) os rs [] []"

definition empty_module :: Operation where
  "empty_module = Operation ModuleOp [] [] [] []"

text \<open>An operation with one result, and an action that offers two replacement results.\<close>

definition one_result_op :: Operation where
  "one_result_op = plain_op ''add'' [SSAValue 0, SSAValue 0] [SSAValue 1]"

definition two_results_action :: RewriteAction where
  "two_results_action = \<lparr>new_ops = [], new_results = [SSAValue 8, SSAValue 9]\<rparr>"

text \<open>An operation with no result.\<close>

definition no_result_op :: Operation where
  "no_result_op = plain_op ''store'' [SSAValue 1] []"

text \<open>A substitution chain: value 1 is replaced by 2, and 2 by 3.\<close>

definition chain_updater :: OperandUpdater where
  "chain_updater = \<lparr>result_mapping = [SSAValue 1 \<mapsto> SSAValue 2, SSAValue 2 \<mapsto> SSAValue 3]\<rparr>"

definition chain_user :: Operation where
  "chain_user = plain_op ''use'' [SSAValue 1, SSAValue 2, SSAValue 5] []"

text \<open>
  The operation with every block argument list emptied, at every nesting level, and
  everything else kept: what a rebuild by \<^verbatim>\<open>rewrite_op_regions\<close> leaves when no
  operation changes.
\<close>

primrec clear_block_args :: "Operation \<Rightarrow> Operation"
  and clear_block_args_region :: "Region \<Rightarrow> Region"
  and clear_block_args_block :: "Block \<Rightarrow> Block" where
  "clear_block_args (Operation k os rs rgs at) =
     Operation k os rs (map clear_block_args_region rgs) at"
| "clear_block_args_region (Region bs) = Region (map clear_block_args_block bs)"
| "clear_block_args_block (Block as sub_ops) = Block [] (map clear_block_args sub_ops)"

text \<open>The nesting depth of an operation: 1 for an operation without nested operations.\<close>

primrec op_depth :: "Operation \<Rightarrow> nat"
  and region_depth :: "Region \<Rightarrow> nat"
  and block_depth :: "Block \<Rightarrow> nat" where
  "op_depth (Operation k os rs rgs at) = Suc (foldr max (map region_depth rgs) 0)"
| "region_depth (Region bs) = foldr max (map block_depth bs) 0"
| "block_depth (Block as sub_ops) = foldr max (map op_depth sub_ops) 0"

text \<open>
  A module whose one block has the argument \<open>SSAValue 0\<close> and holds one operation that
  uses it, and the same module with the block's argument list empty.
\<close>

definition ret_op :: Operation where
  "ret_op = plain_op ''return'' [SSAValue 0] []"

definition arg_module :: Operation where
  "arg_module = Operation ModuleOp [] [] [Region [Block [SSAValue 0] [ret_op]]] []"

definition arg_module_rewritten :: Operation where
  "arg_module_rewritten = Operation ModuleOp [] [] [Region [Block [] [ret_op]]] []"

text \<open>
  A cascade: the pattern replaces \<open>a\<close> by the operations \<open>b\<close> and \<open>c\<close>, with the result of
  \<open>c\<close> standing for the result of \<open>a\<close>, and replaces \<open>b\<close> by \<open>d\<close>, whose results stand for
  those of \<open>b\<close>; \<open>c\<close> consumes the result of \<open>b\<close>. \<open>cascade_final\<close> is the walker after
  \<open>a\<close> has been rewritten.
\<close>

definition op_a :: Operation where
  "op_a = plain_op ''a'' [SSAValue 0] [SSAValue 1]"

definition op_b :: Operation where
  "op_b = plain_op ''b'' [SSAValue 0] [SSAValue 4]"

definition op_c :: Operation where
  "op_c = plain_op ''c'' [SSAValue 4] [SSAValue 5]"

definition op_d :: Operation where
  "op_d = plain_op ''d'' [SSAValue 0] [SSAValue 6]"

definition action_a :: RewriteAction where
  "action_a = RewriteAction_init [op_b, op_c] (Some [SSAValue 5])"

definition cascade_pattern :: RewritePattern where
  "cascade_pattern op new_operands =
     (if kind op = OtherOp ''a'' then Some action_a
      else if kind op = OtherOp ''b'' then Some (RewriteAction_init [op_d] None)
      else None)"

definition cascade_final :: PatternRewriteWalker where
  "cascade_final =
     \<lparr>pattern = cascade_pattern, walk_regions_first = False,
      updater = \<lparr>result_mapping = [SSAValue 1 \<mapsto> SSAValue 5, SSAValue 4 \<mapsto> SSAValue 6]\<rparr>,
      offered = [op_a, op_b, op_d, op_c]\<rparr>"

text \<open>
  The operations offered between two states of the walker, and the property of a
  rewriting function that each call which returns has offered an operation of the kind
  of its argument.
\<close>

definition newly_offered :: "PatternRewriteWalker \<Rightarrow> PatternRewriteWalker \<Rightarrow> Operation list" where
  "newly_offered w w' = drop (length (offered w)) (offered w')"

definition offers_kind :: "rewriter \<Rightarrow> bool" where
  "offers_kind rw \<longleftrightarrow>
     (\<forall>w x out w'. rw w x = Some (Inr (out, w')) \<longrightarrow>
        extends w w' \<and> kind x \<in> kind ` set (newly_offered w w'))"

text \<open>
  Calls made during a walk. \<open>ops_call k w xs w' x\<close>: the loop over the operations \<open>xs\<close>,
  started with the walker \<open>w\<close>, reaches the element \<open>x\<close> with the walker \<open>w'\<close>, the calls
  on the elements before it having returned. \<open>region_call k w rs w' x\<close>: the rebuild of
  the regions \<open>rs\<close> reaches the operation \<open>x\<close> of one of their blocks in the same way, the
  regions, blocks and operations before it having been rebuilt.
  \<open>subcall (n, w, op) (k, w', x)\<close>: the call \<^verbatim>\<open>rewrite_op(op)\<close> at depth \<open>n\<close> with the walker
  \<open>w\<close> makes the call \<^verbatim>\<open>rewrite_op(x)\<close> with the walker \<open>w'\<close>: in the rebuild of the regions
  of \<open>op\<close>, before the pattern is called when regions are walked first and after it has
  not matched otherwise, or in the loop over the new operations of the action when it
  has matched and the substitution is recorded. Its reflexive transitive closure holds
  between a call and every call nested in it, at any depth.
\<close>

definition ops_call ::
  "nat \<Rightarrow> PatternRewriteWalker \<Rightarrow> Operation list \<Rightarrow> PatternRewriteWalker \<Rightarrow> Operation \<Rightarrow> bool" where
  "ops_call k w xs w' x \<longleftrightarrow>
     (\<exists>pre post acc. xs = pre @ x # post \<and>
        rewrite_new_ops (rewrite_op k) w pre [] = Some (Inr (acc, w')))"

definition region_call ::
  "nat \<Rightarrow> PatternRewriteWalker \<Rightarrow> Region list \<Rightarrow> PatternRewriteWalker \<Rightarrow> Operation \<Rightarrow> bool" where
  "region_call k w rs w' x \<longleftrightarrow>
     (\<exists>rpre r rpost new w1 bpre b bpost rg w2.
        rs = rpre @ r # rpost \<and>
        rewrite_regions (rewrite_op k) w rpre [] = Some (Inr (new, w1)) \<and>
        blocks r = bpre @ b # bpost \<and>
        rewrite_blocks (rewrite_op k) w1 bpre Region_init = Some (Inr (rg, w2)) \<and>
        ops_call k w2 (ops b) w' x)"

fun subcall ::
  "nat \<times> PatternRewriteWalker \<times> Operation \<Rightarrow> nat \<times> PatternRewriteWalker \<times> Operation \<Rightarrow> bool" where
  "subcall (n, w, op) (k, w', x) \<longleftrightarrow>
     n = Suc k \<and>
     ((walk_regions_first w \<and> region_call k w (regions op) w' x) \<or>
      (\<not> walk_regions_first w \<and> pattern w op (get_new_operands (updater w) op) = None \<and>
         region_call k (w\<lparr>offered := offered w @ [op]\<rparr>) (regions op) w' x) \<or>
      (\<exists>op1 w1 a u.
         (if walk_regions_first w then rewrite_op_regions k w op else Some (Inr (op, w)))
           = Some (Inr (op1, w1)) \<and>
         pattern w op1 (get_new_operands (updater w1) op1) = Some a \<and>
         bookkeep_results (updater w1) op1 a = Inr u \<and>
         ops_call k (w1\<lparr>offered := offered w1 @ [op1], updater := u\<rparr>) (new_ops a) w' x))"

text \<open>\<open>outcome_of\<close> is \<^verbatim>\<open>rewrite_op\<close> on such a triple.\<close>

definition outcome_of ::
  "nat \<times> PatternRewriteWalker \<times> Operation \<Rightarrow> (Operation list \<times> PatternRewriteWalker) outcome" where
  "outcome_of c = (case c of (n, w, op) \<Rightarrow> rewrite_op n w op)"

text \<open>
  A pattern that matches the operations of kind \<open>add\<close> only, with an action of two
  replacement results, and a module whose block holds one such operation, which has one
  result.
\<close>

definition mismatch_pattern :: RewritePattern where
  "mismatch_pattern op new_operands =
     (if kind op = OtherOp ''add'' then Some two_results_action else None)"

definition mismatch_module :: Operation where
  "mismatch_module = Operation ModuleOp [] [] [Region [Block [] [one_result_op]]] []"

section \<open>Basic facts\<close>

lemma and_then_simps [simp]:
  "and_then None f = None"
  "and_then (Some (Inl e)) f = Some (Inl e)"
  "and_then (Some (Inr x)) f = f x"
  by (simp_all add: and_then_def)

lemma and_then_Inr_iff:
  "and_then m f = Some (Inr y) \<longleftrightarrow> (\<exists>x. m = Some (Inr x) \<and> f x = Some (Inr y))"
  by (auto simp: and_then_def split: option.splits sum.splits)

lemma set_fields [simp]:
  "kind (set_operands op os) = kind op" "operands (set_operands op os) = os"
  "results (set_operands op os) = results op" "regions (set_operands op os) = regions op"
  "attributes (set_operands op os) = attributes op"
  "kind (set_regions op rs) = kind op" "operands (set_regions op rs) = operands op"
  "results (set_regions op rs) = results op" "regions (set_regions op rs) = rs"
  "attributes (set_regions op rs) = attributes op"
  by (cases op; simp)+

lemma set_regions_twice [simp]: "set_regions (set_regions op rs) rs' = set_regions op rs'"
  by (cases op) simp

lemma set_regions_same [simp]: "set_regions op (regions op) = op"
  by (cases op) simp

lemma foldl_add_region: "foldl add_region op rs = set_regions op (regions op @ rs)"
proof (induction rs arbitrary: op)
  case Nil
  show ?case by (cases op) simp
next
  case (Cons r rs)
  have "foldl add_region op (r # rs) = foldl add_region (add_region op r) rs"
    by simp
  also have "\<dots> = set_regions (add_region op r) (regions (add_region op r) @ rs)"
    by (rule Cons)
  also have "add_region op r = set_regions op (regions op @ [r])"
    by (simp add: add_region_def)
  finally show ?case by simp
qed

subsection \<open>The bookkeeping loop\<close>

lemma record_pairs_eq: "record_pairs m ps = m ++ map_of (rev ps)"
proof (induction m ps rule: record_pairs.induct)
  case (1 m)
  show ?case by simp
next
  case (2 m old_res new_res ps)
  have "m ++ map_of (rev ((old_res, new_res) # ps)) = (m ++ [old_res \<mapsto> new_res]) ++ map_of (rev ps)"
    by simp
  also have "m ++ [old_res \<mapsto> new_res] = m(old_res \<mapsto> new_res)"
    by simp
  finally have e: "m ++ map_of (rev ((old_res, new_res) # ps)) = m(old_res \<mapsto> new_res) ++ map_of (rev ps)" .
  show ?case unfolding e record_pairs.simps by (rule 2)
qed

lemma bookkeep_results_mapping:
  "bookkeep_results u op a = Inr u' \<Longrightarrow>
   result_mapping u' = (result_mapping u)(results op [\<mapsto>] new_results a)"
  by (auto simp: bookkeep_results_def record_pairs_eq map_upds_def split: if_splits)

lemma bookkeep_results_mismatch:
  "results op \<noteq> [] \<Longrightarrow> length (new_results a) \<noteq> length (results op) \<Longrightarrow>
   bookkeep_results u op a = Inl AssertionError"
  by (auto simp add: bookkeep_results_def)

subsection \<open>The loops of the walker\<close>

lemma rewrite_new_ops_acc:
  "rewrite_new_ops rw w xs acc =
     and_then (rewrite_new_ops rw w xs []) (\<lambda>(out, w'). Some (Inr (acc @ out, w')))"
proof (induction xs arbitrary: w acc)
  case Nil
  show ?case by simp
next
  case (Cons x xs)
  show ?case
  proof (cases "rw w x")
    case None
    then show ?thesis by simp
  next
    case (Some r)
    show ?thesis
    proof (cases r)
      case (Inl e)
      with Some show ?thesis by simp
    next
      case (Inr p)
      obtain out w1 where p: "p = (out, w1)" by (cases p)
      have a: "rewrite_new_ops rw w1 xs (acc @ out) =
          and_then (rewrite_new_ops rw w1 xs []) (\<lambda>(o', w'). Some (Inr ((acc @ out) @ o', w')))"
        by (rule Cons)
      have b: "rewrite_new_ops rw w1 xs out =
          and_then (rewrite_new_ops rw w1 xs []) (\<lambda>(o', w'). Some (Inr (out @ o', w')))"
        by (rule Cons)
      show ?thesis
        using Some Inr p a b
        by (cases "rewrite_new_ops rw w1 xs []")
           (auto simp: and_then_def split: sum.splits)
    qed
  qed
qed

lemma rewrite_block_ops_eq:
  "rewrite_block_ops rw w xs b =
     and_then (rewrite_new_ops rw w xs []) (\<lambda>(out, w'). Some (Inr (add_ops b out, w')))"
proof (induction xs arbitrary: w b)
  case Nil
  show ?case by (cases b) (simp add: add_ops_def)
next
  case (Cons x xs)
  show ?case
  proof (cases "rw w x")
    case None
    then show ?thesis by simp
  next
    case (Some r)
    show ?thesis
    proof (cases r)
      case (Inl e)
      with Some show ?thesis by simp
    next
      case (Inr p)
      obtain out w1 where p: "p = (out, w1)" by (cases p)
      have a: "rewrite_block_ops rw w1 xs (add_ops b out) =
          and_then (rewrite_new_ops rw w1 xs [])
            (\<lambda>(o', w'). Some (Inr (add_ops (add_ops b out) o', w')))"
        by (rule Cons)
      have b: "rewrite_new_ops rw w1 xs out =
          and_then (rewrite_new_ops rw w1 xs []) (\<lambda>(o', w'). Some (Inr (out @ o', w')))"
        by (rule rewrite_new_ops_acc)
      show ?thesis
        using Some Inr p a b
        by (cases "rewrite_new_ops rw w1 xs []")
           (auto simp: and_then_def add_ops_def split: sum.splits)
    qed
  qed
qed


subsection \<open>Later states of the walker\<close>

lemma extends_refl [simp]: "extends w w"
  by (simp add: extends_def)

lemma extends_trans: "extends a b \<Longrightarrow> extends b c \<Longrightarrow> extends a c"
  by (auto simp: extends_def)

lemma extends_log: "extends w (w\<lparr>offered := offered w @ xs\<rparr>)"
  by (simp add: extends_def)

lemma extends_updater: "extends w w' \<Longrightarrow> extends w (w'\<lparr>updater := u\<rparr>)"
  by (simp add: extends_def)

lemma rewrite_new_ops_extends:
  assumes rw: "\<And>w x out w'. rw w x = Some (Inr (out, w')) \<Longrightarrow> extends w w'"
  shows "rewrite_new_ops rw w xs acc = Some (Inr (out, w')) \<Longrightarrow> extends w w'"
proof (induction xs arbitrary: w acc)
  case Nil
  then show ?case by simp
next
  case (Cons x xs)
  from Cons.prems obtain o1 w1 where
    1: "rw w x = Some (Inr (o1, w1))" and
    2: "rewrite_new_ops rw w1 xs (acc @ o1) = Some (Inr (out, w'))"
    by (auto simp: and_then_Inr_iff)
  from rw[OF 1] Cons.IH[OF 2] show ?case by (rule extends_trans)
qed

lemma rewrite_block_ops_extends:
  assumes rw: "\<And>w x out w'. rw w x = Some (Inr (out, w')) \<Longrightarrow> extends w w'"
  shows "rewrite_block_ops rw w xs b = Some (Inr (b', w')) \<Longrightarrow> extends w w'"
proof (induction xs arbitrary: w b)
  case Nil
  then show ?case by simp
next
  case (Cons x xs)
  from Cons.prems obtain o1 w1 where
    1: "rw w x = Some (Inr (o1, w1))" and
    2: "rewrite_block_ops rw w1 xs (add_ops b o1) = Some (Inr (b', w'))"
    by (auto simp: and_then_Inr_iff)
  from rw[OF 1] Cons.IH[OF 2] show ?case by (rule extends_trans)
qed

lemma rewrite_blocks_extends:
  assumes rw: "\<And>w x out w'. rw w x = Some (Inr (out, w')) \<Longrightarrow> extends w w'"
  shows "rewrite_blocks rw w bs r = Some (Inr (r', w')) \<Longrightarrow> extends w w'"
proof (induction bs arbitrary: w r)
  case Nil
  then show ?case by simp
next
  case (Cons b bs)
  from Cons.prems obtain b1 w1 where
    1: "rewrite_block_ops rw w (ops b) Block_init = Some (Inr (b1, w1))" and
    2: "rewrite_blocks rw w1 bs (add_block r b1) = Some (Inr (r', w'))"
    by (auto simp: and_then_Inr_iff)
  from rewrite_block_ops_extends[OF rw 1] Cons.IH[OF 2] show ?case by (rule extends_trans)
qed

lemma rewrite_regions_extends:
  assumes rw: "\<And>w x out w'. rw w x = Some (Inr (out, w')) \<Longrightarrow> extends w w'"
  shows "rewrite_regions rw w rs acc = Some (Inr (new, w')) \<Longrightarrow> extends w w'"
proof (induction rs arbitrary: w acc)
  case Nil
  then show ?case by simp
next
  case (Cons r rs)
  from Cons.prems obtain r1 w1 where
    1: "rewrite_blocks rw w (blocks r) Region_init = Some (Inr (r1, w1))" and
    2: "rewrite_regions rw w1 rs (acc @ [r1]) = Some (Inr (new, w'))"
    by (auto simp: and_then_Inr_iff)
  from rewrite_blocks_extends[OF rw 1] Cons.IH[OF 2] show ?case by (rule extends_trans)
qed

lemma rewrite_op_regions_with_eq:
  "rewrite_op_regions_with rw w op =
     and_then (rewrite_regions rw w (regions op) [])
       (\<lambda>(new_regions, w'). Some (Inr (set_regions op new_regions, w')))"
  by (simp add: rewrite_op_regions_with_def foldl_add_region)

lemma rewrite_op_regions_with_Inr:
  "rewrite_op_regions_with rw w op = Some (Inr (op', w')) \<longleftrightarrow>
     (\<exists>new. rewrite_regions rw w (regions op) [] = Some (Inr (new, w')) \<and> op' = set_regions op new)"
  by (auto simp: rewrite_op_regions_with_eq and_then_Inr_iff)

lemma rewrite_op_regions_with_extends:
  assumes rw: "\<And>w x out w'. rw w x = Some (Inr (out, w')) \<Longrightarrow> extends w w'"
    and r: "rewrite_op_regions_with rw w op = Some (Inr (op', w'))"
  shows "extends w w'"
proof -
  from r obtain new where "rewrite_regions rw w (regions op) [] = Some (Inr (new, w'))"
    by (auto simp: rewrite_op_regions_with_Inr)
  with rw show ?thesis by (rule rewrite_regions_extends)
qed

text \<open>The body of \<^verbatim>\<open>rewrite_op\<close>, with the bindings of its \<open>let\<close> expanded.\<close>

lemma rewrite_op_Suc:
  "rewrite_op (Suc n) w op =
     and_then
       (if walk_regions_first w then rewrite_op_regions n w op else Some (Inr (op, w)))
       (\<lambda>(op1, w1).
          case pattern w1 op1 (get_new_operands (updater w1) op1) of
            Some a \<Rightarrow>
              (case bookkeep_results (updater w1) op1 a of
                 Inl e \<Rightarrow> Some (Inl e)
               | Inr u \<Rightarrow>
                   rewrite_new_ops (rewrite_op n)
                     (w1\<lparr>offered := offered w1 @ [op1], updater := u\<rparr>) (new_ops a) [])
          | None \<Rightarrow>
              if walk_regions_first w1
              then Some (Inr ([update_operands (updater w1) op1], w1\<lparr>offered := offered w1 @ [op1]\<rparr>))
              else and_then
                     (rewrite_op_regions n (w1\<lparr>offered := offered w1 @ [op1]\<rparr>)
                        (update_operands (updater w1) op1))
                     (\<lambda>(op3, w3). Some (Inr ([op3], w3))))"
  by (auto simp: rewrite_op_regions_def Let_def and_then_def
           split: option.splits sum.splits prod.splits)

declare rewrite_op.simps(2) [simp del]

lemma rewrite_op_extends:
  "rewrite_op n w op = Some (Inr (out, w')) \<Longrightarrow> extends w w'"
proof (induction n arbitrary: w op out w')
  case 0
  then show ?case by simp
next
  case (Suc n)
  note rw = Suc.IH
  from Suc.prems obtain op1 w1 where
    pre: "(if walk_regions_first w then rewrite_op_regions n w op else Some (Inr (op, w)))
            = Some (Inr (op1, w1))"
    and rest: "(case pattern w1 op1 (get_new_operands (updater w1) op1) of
            Some a \<Rightarrow>
              (case bookkeep_results (updater w1) op1 a of
                 Inl e \<Rightarrow> Some (Inl e)
               | Inr u \<Rightarrow>
                   rewrite_new_ops (rewrite_op n)
                     (w1\<lparr>offered := offered w1 @ [op1], updater := u\<rparr>) (new_ops a) [])
          | None \<Rightarrow>
              if walk_regions_first w1
              then Some (Inr ([update_operands (updater w1) op1], w1\<lparr>offered := offered w1 @ [op1]\<rparr>))
              else and_then
                     (rewrite_op_regions n (w1\<lparr>offered := offered w1 @ [op1]\<rparr>)
                        (update_operands (updater w1) op1))
                     (\<lambda>(op3, w3). Some (Inr ([op3], w3)))) = Some (Inr (out, w'))"
    unfolding rewrite_op_Suc by (auto simp: and_then_Inr_iff)
  have e1: "extends w w1"
    using pre rewrite_op_regions_with_extends[of "rewrite_op n", OF rw]
    by (auto simp: rewrite_op_regions_def split: if_splits)
  have e2: "extends w1 (w1\<lparr>offered := offered w1 @ [op1]\<rparr>)"
    by (rule extends_log)
  have e3: "extends (w1\<lparr>offered := offered w1 @ [op1]\<rparr>) w'"
  proof (cases "pattern w1 op1 (get_new_operands (updater w1) op1)")
    case None
    with rest show ?thesis
      using rewrite_op_regions_with_extends[of "rewrite_op n", OF rw]
      by (auto simp: rewrite_op_regions_def and_then_Inr_iff split: if_splits)
  next
    case (Some a)
    with rest obtain u where
      r: "rewrite_new_ops (rewrite_op n)
            (w1\<lparr>offered := offered w1 @ [op1], updater := u\<rparr>) (new_ops a) [] = Some (Inr (out, w'))"
      by (auto split: sum.splits)
    have "extends (w1\<lparr>offered := offered w1 @ [op1], updater := u\<rparr>) w'"
      using rewrite_new_ops_extends[OF rw r] .
    then show ?thesis by (simp add: extends_def)
  qed
  from e1 e2 e3 show ?case by (blast intro: extends_trans)
qed

lemma rewrite_op_regions_frame:
  assumes "rewrite_op_regions n w op = Some (Inr (op', w'))"
  shows "extends w w' \<and> (\<exists>new. op' = set_regions op new)"
proof -
  have rw: "\<And>w x out w'. rewrite_op n w x = Some (Inr (out, w')) \<Longrightarrow> extends w w'"
    by (rule rewrite_op_extends)
  from assms have r: "rewrite_op_regions_with (rewrite_op n) w op = Some (Inr (op', w'))"
    by (simp add: rewrite_op_regions_def)
  with rw have "extends w w'" by (rule rewrite_op_regions_with_extends)
  moreover from r have "\<exists>new. op' = set_regions op new"
    by (auto simp: rewrite_op_regions_with_Inr)
  ultimately show ?thesis by simp
qed

lemma rewrite_op_regions_no_regions:
  "regions op = [] \<Longrightarrow> rewrite_op_regions n w op = Some (Inr (op, w))"
  by (cases op) (simp add: rewrite_op_regions_def rewrite_op_regions_with_eq)

lemma rewrite_module_cases:
  "rewrite_module n w op =
     (case rewrite_op n w op of
        None \<Rightarrow> None
      | Some (Inl e) \<Rightarrow> Some (Inl e)
      | Some (Inr (res_ops, w')) \<Rightarrow>
          if length res_ops = 1 then Some (Inl IndexError) else Some (Inl RewriteException))"
  by (auto simp add: rewrite_module_def and_then_def py_index_def
           split: option.splits sum.splits prod.splits)

subsection \<open>The recursion depth\<close>

text \<open>
  A call that returns or raises within some depth does the same within any greater
  depth: the bound only cuts off calls that have not finished.
\<close>

lemma and_then_mono:
  assumes "and_then m f = Some r"
    and "\<And>x. m = Some (Inr x) \<Longrightarrow> f x = Some r \<Longrightarrow> g x = Some r"
  shows "and_then m g = Some r"
  using assms by (auto simp: and_then_def split: option.splits sum.splits)

lemma and_then_mono2:
  assumes "and_then m f = Some r" and "\<And>r. m = Some r \<Longrightarrow> m' = Some r"
  shows "and_then m' f = Some r"
  using assms by (cases m) auto

lemma rewrite_new_ops_mono:
  assumes rw: "\<And>w x r. rw w x = Some r \<Longrightarrow> rw' w x = Some r"
  shows "rewrite_new_ops rw w xs acc = Some r \<Longrightarrow> rewrite_new_ops rw' w xs acc = Some r"
proof (induction xs arbitrary: w acc)
  case Nil
  then show ?case by simp
next
  case (Cons x xs)
  from Cons.prems
  have "and_then (rw w x) (\<lambda>(out, w'). rewrite_new_ops rw w' xs (acc @ out)) = Some r" by simp
  then have "and_then (rw w x) (\<lambda>(out, w'). rewrite_new_ops rw' w' xs (acc @ out)) = Some r"
    by (rule and_then_mono) (auto dest: Cons.IH)
  then have "and_then (rw' w x) (\<lambda>(out, w'). rewrite_new_ops rw' w' xs (acc @ out)) = Some r"
    by (rule and_then_mono2) (rule rw)
  then show ?case by simp
qed

lemma rewrite_block_ops_mono:
  assumes rw: "\<And>w x r. rw w x = Some r \<Longrightarrow> rw' w x = Some r"
  shows "rewrite_block_ops rw w xs b = Some r \<Longrightarrow> rewrite_block_ops rw' w xs b = Some r"
proof (induction xs arbitrary: w b)
  case Nil
  then show ?case by simp
next
  case (Cons x xs)
  from Cons.prems
  have "and_then (rw w x) (\<lambda>(out, w'). rewrite_block_ops rw w' xs (add_ops b out)) = Some r" by simp
  then have "and_then (rw w x) (\<lambda>(out, w'). rewrite_block_ops rw' w' xs (add_ops b out)) = Some r"
    by (rule and_then_mono) (auto dest: Cons.IH)
  then have "and_then (rw' w x) (\<lambda>(out, w'). rewrite_block_ops rw' w' xs (add_ops b out)) = Some r"
    by (rule and_then_mono2) (rule rw)
  then show ?case by simp
qed

lemma rewrite_blocks_mono:
  assumes rw: "\<And>w x r. rw w x = Some r \<Longrightarrow> rw' w x = Some r"
  shows "rewrite_blocks rw w bs rg = Some r \<Longrightarrow> rewrite_blocks rw' w bs rg = Some r"
proof (induction bs arbitrary: w rg)
  case Nil
  then show ?case by simp
next
  case (Cons b bs)
  from Cons.prems
  have "and_then (rewrite_block_ops rw w (ops b) Block_init)
          (\<lambda>(nb, w'). rewrite_blocks rw w' bs (add_block rg nb)) = Some r" by simp
  then have "and_then (rewrite_block_ops rw w (ops b) Block_init)
          (\<lambda>(nb, w'). rewrite_blocks rw' w' bs (add_block rg nb)) = Some r"
    by (rule and_then_mono) (auto dest: Cons.IH)
  then have "and_then (rewrite_block_ops rw' w (ops b) Block_init)
          (\<lambda>(nb, w'). rewrite_blocks rw' w' bs (add_block rg nb)) = Some r"
    by (rule and_then_mono2) (rule rewrite_block_ops_mono[of rw rw', OF rw])
  then show ?case by simp
qed

lemma rewrite_regions_mono:
  assumes rw: "\<And>w x r. rw w x = Some r \<Longrightarrow> rw' w x = Some r"
  shows "rewrite_regions rw w rs acc = Some r \<Longrightarrow> rewrite_regions rw' w rs acc = Some r"
proof (induction rs arbitrary: w acc)
  case Nil
  then show ?case by simp
next
  case (Cons rg rs)
  from Cons.prems
  have "and_then (rewrite_blocks rw w (blocks rg) Region_init)
          (\<lambda>(nr, w'). rewrite_regions rw w' rs (acc @ [nr])) = Some r" by simp
  then have "and_then (rewrite_blocks rw w (blocks rg) Region_init)
          (\<lambda>(nr, w'). rewrite_regions rw' w' rs (acc @ [nr])) = Some r"
    by (rule and_then_mono) (auto dest: Cons.IH)
  then have "and_then (rewrite_blocks rw' w (blocks rg) Region_init)
          (\<lambda>(nr, w'). rewrite_regions rw' w' rs (acc @ [nr])) = Some r"
    by (rule and_then_mono2) (rule rewrite_blocks_mono[of rw rw', OF rw])
  then show ?case by simp
qed

lemma rewrite_op_regions_with_mono:
  assumes rw: "\<And>w x r. rw w x = Some r \<Longrightarrow> rw' w x = Some r"
    and r: "rewrite_op_regions_with rw w op = Some r"
  shows "rewrite_op_regions_with rw' w op = Some r"
  using r unfolding rewrite_op_regions_with_eq
  by (rule and_then_mono2) (rule rewrite_regions_mono[of rw rw', OF rw])

lemma rewrite_op_deeper:
  "rewrite_op n w op = Some r \<Longrightarrow> rewrite_op (Suc n) w op = Some r"
proof (induction n arbitrary: w op r)
  case 0
  then show ?case by simp
next
  case (Suc n)
  have rw: "\<And>w x r. rewrite_op n w x = Some r \<Longrightarrow> rewrite_op (Suc n) w x = Some r"
    by (rule Suc.IH)
  have rg: "rewrite_op_regions n w x = Some r \<Longrightarrow> rewrite_op_regions (Suc n) w x = Some r"
    for w x r
    unfolding rewrite_op_regions_def
    by (rule rewrite_op_regions_with_mono[of "rewrite_op n" "rewrite_op (Suc n)", OF rw])
  have no: "rewrite_new_ops (rewrite_op n) w xs acc = Some r \<Longrightarrow>
            rewrite_new_ops (rewrite_op (Suc n)) w xs acc = Some r" for w xs acc r
    by (rule rewrite_new_ops_mono[of "rewrite_op n" "rewrite_op (Suc n)", OF rw])
  define body where "body k = (\<lambda>(op1, w1).
          case pattern w1 op1 (get_new_operands (updater w1) op1) of
            Some a \<Rightarrow>
              (case bookkeep_results (updater w1) op1 a of
                 Inl e \<Rightarrow> Some (Inl e)
               | Inr u \<Rightarrow>
                   rewrite_new_ops (rewrite_op k)
                     (w1\<lparr>offered := offered w1 @ [op1], updater := u\<rparr>) (new_ops a) [])
          | None \<Rightarrow>
              if walk_regions_first w1
              then Some (Inr ([update_operands (updater w1) op1], w1\<lparr>offered := offered w1 @ [op1]\<rparr>))
              else and_then
                     (rewrite_op_regions k (w1\<lparr>offered := offered w1 @ [op1]\<rparr>)
                        (update_operands (updater w1) op1))
                     (\<lambda>(op3, w3). Some (Inr ([op3], w3))))" for k
  have step: "rewrite_op (Suc k) w op =
      and_then (if walk_regions_first w then rewrite_op_regions k w op else Some (Inr (op, w)))
        (body k)" for k
    unfolding rewrite_op_Suc body_def ..
  have b: "body (Suc n) x = Some r" if "body n x = Some r" for x
  proof -
    obtain op1 w1 where x: "x = (op1, w1)" by (cases x)
    show ?thesis
    proof (cases "pattern w1 op1 (get_new_operands (updater w1) op1)")
      case None
      show ?thesis
      proof (cases "walk_regions_first w1")
        case True
        with that None x show ?thesis by (simp add: body_def)
      next
        case False
        with that None x
        have "and_then (rewrite_op_regions n (w1\<lparr>offered := offered w1 @ [op1]\<rparr>)
                        (update_operands (updater w1) op1))
                     (\<lambda>(op3, w3). Some (Inr ([op3], w3))) = Some r"
          by (simp add: body_def)
        then have "and_then (rewrite_op_regions (Suc n) (w1\<lparr>offered := offered w1 @ [op1]\<rparr>)
                        (update_operands (updater w1) op1))
                     (\<lambda>(op3, w3). Some (Inr ([op3], w3))) = Some r"
          by (rule and_then_mono2) (rule rg)
        with None False x show ?thesis by (simp add: body_def)
      qed
    next
      case (Some a)
      show ?thesis
      proof (cases "bookkeep_results (updater w1) op1 a")
        case (Inl e)
        with that Some x show ?thesis by (simp add: body_def)
      next
        case (Inr u)
        with that Some x
        have "rewrite_new_ops (rewrite_op n)
                (w1\<lparr>offered := offered w1 @ [op1], updater := u\<rparr>) (new_ops a) [] = Some r"
          by (simp add: body_def)
        then have "rewrite_new_ops (rewrite_op (Suc n))
                (w1\<lparr>offered := offered w1 @ [op1], updater := u\<rparr>) (new_ops a) [] = Some r"
          by (rule no)
        with Some Inr x show ?thesis by (simp add: body_def)
      qed
    qed
  qed
  from Suc.prems
  have "and_then (if walk_regions_first w then rewrite_op_regions n w op else Some (Inr (op, w)))
          (body n) = Some r"
    unfolding step .
  then have "and_then (if walk_regions_first w then rewrite_op_regions n w op else Some (Inr (op, w)))
          (body (Suc n)) = Some r"
    by (rule and_then_mono) (rule b)
  then have "and_then (if walk_regions_first w then rewrite_op_regions (Suc n) w op
                       else Some (Inr (op, w)))
          (body (Suc n)) = Some r"
    by (rule and_then_mono2) (auto dest: rg split: if_splits)
  then show ?case unfolding step .
qed

lemma rewrite_op_any_depth:
  "rewrite_op n w op = Some r \<Longrightarrow> n \<le> k \<Longrightarrow> rewrite_op k w op = Some r"
  by (induction k) (auto simp: le_Suc_eq dest: rewrite_op_deeper)

subsection \<open>Failures of nested calls\<close>

text \<open>
  No method of the walker catches an exception: when a nested call of \<^verbatim>\<open>rewrite_op\<close>
  raises, every call around it raises the same exception.
\<close>

lemma rewrite_new_ops_append:
  "rewrite_new_ops rw w (xs @ ys) acc =
     and_then (rewrite_new_ops rw w xs acc) (\<lambda>(acc', w'). rewrite_new_ops rw w' ys acc')"
proof (induction xs arbitrary: w acc)
  case Nil
  show ?case by simp
next
  case (Cons x xs)
  show ?case
    by (cases "rw w x") (auto simp: Cons and_then_def split: sum.splits)
qed

lemma rewrite_blocks_append:
  "rewrite_blocks rw w (xs @ ys) rg =
     and_then (rewrite_blocks rw w xs rg) (\<lambda>(rg', w'). rewrite_blocks rw w' ys rg')"
proof (induction xs arbitrary: w rg)
  case Nil
  show ?case by simp
next
  case (Cons x xs)
  show ?case
    by (cases "rewrite_block_ops rw w (ops x) Block_init")
       (auto simp: Cons and_then_def split: sum.splits)
qed

lemma rewrite_regions_append:
  "rewrite_regions rw w (xs @ ys) acc =
     and_then (rewrite_regions rw w xs acc) (\<lambda>(acc', w'). rewrite_regions rw w' ys acc')"
proof (induction xs arbitrary: w acc)
  case Nil
  show ?case by simp
next
  case (Cons x xs)
  show ?case
    by (cases "rewrite_blocks rw w (blocks x) Region_init")
       (auto simp: Cons and_then_def split: sum.splits)
qed

lemma ops_call_raises:
  assumes "ops_call k w xs w' x" and "rewrite_op k w' x = Some (Inl e)"
  shows "rewrite_new_ops (rewrite_op k) w xs [] = Some (Inl e)"
proof -
  from assms(1) obtain pre post acc where
    xs: "xs = pre @ x # post" and
    p: "rewrite_new_ops (rewrite_op k) w pre [] = Some (Inr (acc, w'))"
    by (auto simp: ops_call_def)
  show ?thesis
    unfolding xs rewrite_new_ops_append p using assms(2) by simp
qed

lemma region_call_raises:
  assumes "region_call k w rs w' x" and "rewrite_op k w' x = Some (Inl e)"
  shows "rewrite_regions (rewrite_op k) w rs [] = Some (Inl e)"
proof -
  from assms(1) obtain rpre r rpost new w1 bpre b bpost rg w2 where
    rs: "rs = rpre @ r # rpost" and
    1: "rewrite_regions (rewrite_op k) w rpre [] = Some (Inr (new, w1))" and
    bs: "blocks r = bpre @ b # bpost" and
    2: "rewrite_blocks (rewrite_op k) w1 bpre Region_init = Some (Inr (rg, w2))" and
    3: "ops_call k w2 (ops b) w' x"
    by (auto simp: region_call_def)
  from ops_call_raises[OF 3 assms(2)]
  have "rewrite_block_ops (rewrite_op k) w2 (ops b) Block_init = Some (Inl e)"
    by (simp add: rewrite_block_ops_eq)
  then have "rewrite_blocks (rewrite_op k) w1 (blocks r) Region_init = Some (Inl e)"
    unfolding bs rewrite_blocks_append 2 by simp
  then show ?thesis
    unfolding rs rewrite_regions_append 1 by simp
qed

lemma subcall_raises:
  assumes "subcall c c'" and "outcome_of c' = Some (Inl e)"
  shows "outcome_of c = Some (Inl e)"
proof -
  obtain n w op where c: "c = (n, w, op)" by (cases c)
  obtain k w' x where c': "c' = (k, w', x)" by (cases c')
  from assms(2) have x: "rewrite_op k w' x = Some (Inl e)"
    by (simp add: outcome_of_def c')
  from assms(1) have n: "n = Suc k" by (simp add: c c')
  have A: "rewrite_op (Suc k) w op = Some (Inl e)"
    if "walk_regions_first w" "region_call k w (regions op) w' x"
  proof -
    from region_call_raises[OF that(2) x]
    have "rewrite_op_regions k w op = Some (Inl e)"
      by (simp add: rewrite_op_regions_def rewrite_op_regions_with_eq)
    with that(1) show ?thesis unfolding rewrite_op_Suc by simp
  qed
  have B: "rewrite_op (Suc k) w op = Some (Inl e)"
    if "\<not> walk_regions_first w" "pattern w op (get_new_operands (updater w) op) = None"
       "region_call k (w\<lparr>offered := offered w @ [op]\<rparr>) (regions op) w' x"
  proof -
    from region_call_raises[OF that(3) x]
    have "rewrite_op_regions k (w\<lparr>offered := offered w @ [op]\<rparr>)
            (update_operands (updater w) op) = Some (Inl e)"
      by (simp add: rewrite_op_regions_def rewrite_op_regions_with_eq update_operands_def)
    with that(1,2) show ?thesis unfolding rewrite_op_Suc by simp
  qed
  have C: "rewrite_op (Suc k) w op = Some (Inl e)"
    if "(if walk_regions_first w then rewrite_op_regions k w op else Some (Inr (op, w)))
           = Some (Inr (op1, w1))"
       "pattern w op1 (get_new_operands (updater w1) op1) = Some a"
       "bookkeep_results (updater w1) op1 a = Inr u"
       "ops_call k (w1\<lparr>offered := offered w1 @ [op1], updater := u\<rparr>) (new_ops a) w' x"
    for op1 w1 a u
  proof -
    have pw: "pattern w1 = pattern w"
      using that(1) rewrite_op_regions_frame[of k w op op1 w1]
      by (auto simp: extends_def split: if_splits)
    from ops_call_raises[OF that(4) x] that(1,2,3) pw show ?thesis
      unfolding rewrite_op_Suc by simp
  qed
  from assms(1) have "rewrite_op (Suc k) w op = Some (Inl e)"
    unfolding c c' subcall.simps
    by (elim conjE disjE exE) (erule (1) A, erule (2) B, erule (3) C)
  then show ?thesis by (simp add: outcome_of_def c n)
qed

lemma nested_call_raises:
  assumes "rtranclp subcall c c'" and "outcome_of c' = Some (Inl e)"
  shows "outcome_of c = Some (Inl e)"
  using assms by (induction rule: converse_rtranclp_induct) (auto intro: subcall_raises)

lemma ops_call_first: "ops_call k w (x # xs) w x"
  unfolding ops_call_def
  by (intro exI[of _ "[]"] exI[of _ xs]) simp

lemma region_call_first: "region_call k w (Region (Block as (x # xs) # bs) # rs) w x"
  unfolding region_call_def
  by (intro exI[of _ "[]"] exI[of _ "Region (Block as (x # xs) # bs)"] exI[of _ rs]
        exI[of _ w] exI[of _ "Block as (x # xs)"] exI[of _ bs] exI[of _ Region_init])
     (simp add: ops_call_first)

lemma mismatch_subcall:
  "subcall (2, walker_with mismatch_pattern False, mismatch_module)
     (Suc 0, (walker_with mismatch_pattern False)\<lparr>offered := [mismatch_module]\<rparr>, one_result_op)"
  "subcall (2, walker_with mismatch_pattern True, mismatch_module)
     (Suc 0, walker_with mismatch_pattern True, one_result_op)"
  by (simp_all add: walker_with_def mismatch_pattern_def mismatch_module_def region_call_first)

section \<open>The claims\<close>

text \<open>
  C1. The claim: \<^verbatim>\<open>rewrite_module(m)\<close> returns the rewritten module when \<^verbatim>\<open>rewrite_op(m)\<close>
  yields exactly one operation of the module kind, and raises in every other case. The
  code reads \<^verbatim>\<open>new_ops[1]\<close> from the one-element list, which raises \<^verbatim>\<open>IndexError\<close>: no call
  of \<^verbatim>\<open>rewrite_module\<close> returns. The module without regions, under the pattern that never
  matches, is rewritten by \<^verbatim>\<open>rewrite_op\<close> into itself, one operation of the module kind, and
  \<^verbatim>\<open>rewrite_module\<close> raises \<^verbatim>\<open>IndexError\<close> on it.
\<close>

theorem rewrite_module_single_result_raises_IndexError:
  "rewrite_module n w op \<noteq> Some (Inr r) \<and>
   rewrite_op 1 (walker_with never_match False) empty_module =
     Some (Inr ([empty_module], (walker_with never_match False)\<lparr>offered := [empty_module]\<rparr>)) \<and>
   kind empty_module = ModuleOp \<and>
   rewrite_module 1 (walker_with never_match False) empty_module = Some (Inl IndexError)"
proof -
  have a: "rewrite_module n w op \<noteq> Some (Inr r)"
    by (auto simp: rewrite_module_cases split: option.splits sum.splits prod.splits)
  have b: "rewrite_op 1 (walker_with never_match False) empty_module =
     Some (Inr ([empty_module], (walker_with never_match False)\<lparr>offered := [empty_module]\<rparr>))"
    unfolding One_nat_def rewrite_op_Suc
    by (simp add: walker_with_def never_match_def empty_module_def rewrite_op_regions_no_regions
        update_operands_def get_new_operands_def)
  have c: "rewrite_module 1 (walker_with never_match False) empty_module = Some (Inl IndexError)"
    unfolding rewrite_module_cases b by simp
  have d: "kind empty_module = ModuleOp"
    by (simp add: empty_module_def)
  from a b c d show ?thesis by blast
qed

text \<open>
  C2. Constructing a \<^verbatim>\<open>PatternRewriteWalker\<close>, for every pattern and with or without the
  flag, raises \<^verbatim>\<open>TypeError\<close>: the constructor calls \<^verbatim>\<open>OperandUpdater()\<close>, whose default
  factory for \<^verbatim>\<open>result_mapping\<close> is a dictionary, not something callable. An
  \<^verbatim>\<open>OperandUpdater\<close> given its dictionary explicitly is constructed, but the walker's
  constructor has no parameter for it.
\<close>

theorem default_construction_raises_TypeError:
  "PatternRewriteWalker_init p flag = Inl TypeError \<and>
   OperandUpdater_init None = Inl TypeError \<and>
   OperandUpdater_init (Some m) = Inr \<lparr>result_mapping = m\<rparr>"
  by (simp add: PatternRewriteWalker_init_def updater_default_factory_def py_call_def
      OperandUpdater_init_def result_mapping_default_factory_def)

text \<open>
  C5. For a matched operation with at least one result and an action whose
  \<^verbatim>\<open>new_results\<close> has another length, \<^verbatim>\<open>bookkeep_results\<close> raises \<^verbatim>\<open>AssertionError\<close>,
  whatever the bookkeeping state; and the walk is aborted with that failure: in either
  traversal order \<^verbatim>\<open>rewrite_op\<close> on that operation raises \<^verbatim>\<open>AssertionError\<close>, and so do
  every call of \<^verbatim>\<open>rewrite_op\<close> in which that call is nested, at any depth, through
  rebuilt regions or through the new operations of earlier matches, and
  \<^verbatim>\<open>rewrite_module\<close> on any of them. With regions first, the operation offered to the
  pattern is the one \<^verbatim>\<open>rewrite_op_regions\<close> has left, \<open>op1\<close>. In the witness the
  mismatching operation is the one operation in the block of a module.
\<close>

theorem result_count_mismatch_aborts:
  assumes "results op \<noteq> []" and "length (new_results a) \<noteq> length (results op)"
  shows "bookkeep_results u op a = Inl AssertionError \<and>
    (\<not> walk_regions_first w \<and> pattern w op (get_new_operands (updater w) op) = Some a \<longrightarrow>
       rewrite_op (Suc n) w op = Some (Inl AssertionError) \<and>
       rewrite_module (Suc n) w op = Some (Inl AssertionError)) \<and>
    (walk_regions_first w \<and> rewrite_op_regions n w op = Some (Inr (op1, w1)) \<and>
     pattern w op1 (get_new_operands (updater w1) op1) = Some a \<longrightarrow>
       rewrite_op (Suc n) w op = Some (Inl AssertionError) \<and>
       rewrite_module (Suc n) w op = Some (Inl AssertionError)) \<and>
    (\<forall>k w0 root.
       rtranclp subcall (k, w0, root) (Suc n, w, op) \<and>
       ((\<not> walk_regions_first w \<and> pattern w op (get_new_operands (updater w) op) = Some a) \<or>
        (walk_regions_first w \<and> rewrite_op_regions n w op = Some (Inr (op1, w1)) \<and>
         pattern w op1 (get_new_operands (updater w1) op1) = Some a)) \<longrightarrow>
       rewrite_op k w0 root = Some (Inl AssertionError) \<and>
       rewrite_module k w0 root = Some (Inl AssertionError))"
proof -
  have bk: "\<And>u. bookkeep_results u op a = Inl AssertionError"
    using assms by (rule bookkeep_results_mismatch)
  have m: "rewrite_op k w0 root = Some (Inl AssertionError) \<Longrightarrow>
           rewrite_module k w0 root = Some (Inl AssertionError)" for k w0 root
    by (simp add: rewrite_module_def)
  have 1: "rewrite_op (Suc n) w op = Some (Inl AssertionError)"
    if "\<not> walk_regions_first w" "pattern w op (get_new_operands (updater w) op) = Some a"
    unfolding rewrite_op_Suc using that by (simp add: bk)
  have 2: "rewrite_op (Suc n) w op = Some (Inl AssertionError)"
    if f: "walk_regions_first w" and r: "rewrite_op_regions n w op = Some (Inr (op1, w1))"
      and p: "pattern w op1 (get_new_operands (updater w1) op1) = Some a"
  proof -
    from rewrite_op_regions_frame[OF r] obtain new where
      e: "extends w w1" and o: "op1 = set_regions op new" by blast
    from e have pw: "pattern w1 = pattern w" by (simp add: extends_def)
    have "results op1 = results op" by (simp add: o)
    with assms have "bookkeep_results (updater w1) op1 a = Inl AssertionError"
      by (intro bookkeep_results_mismatch) simp_all
    then show ?thesis
      unfolding rewrite_op_Suc using f r p pw by simp
  qed
  have 3: "rewrite_op k w0 root = Some (Inl AssertionError)"
    if c: "rtranclp subcall (k, w0, root) (Suc n, w, op)"
      and "(\<not> walk_regions_first w \<and> pattern w op (get_new_operands (updater w) op) = Some a) \<or>
        (walk_regions_first w \<and> rewrite_op_regions n w op = Some (Inr (op1, w1)) \<and>
         pattern w op1 (get_new_operands (updater w1) op1) = Some a)"
    for k w0 root
  proof -
    from that(2) 1 2 have "rewrite_op (Suc n) w op = Some (Inl AssertionError)" by blast
    then have "outcome_of (Suc n, w, op) = Some (Inl AssertionError)"
      by (simp add: outcome_of_def)
    with c have "outcome_of (k, w0, root) = Some (Inl AssertionError)"
      by (rule nested_call_raises)
    then show ?thesis by (simp add: outcome_of_def)
  qed
  from bk m 1 2 3 show ?thesis by blast
qed

theorem result_count_mismatch_aborts_witness:
  "results one_result_op \<noteq> [] \<and>
   length (new_results two_results_action) \<noteq> length (results one_result_op) \<and>
   pattern (walker_with (always_replace two_results_action) False) one_result_op
     (get_new_operands (updater (walker_with (always_replace two_results_action) False)) one_result_op)
     = Some two_results_action \<and>
   rewrite_op_regions 0 (walker_with (always_replace two_results_action) True) one_result_op
     = Some (Inr (one_result_op, walker_with (always_replace two_results_action) True)) \<and>
   bookkeep_results \<lparr>result_mapping = Map.empty\<rparr> one_result_op two_results_action = Inl AssertionError \<and>
   rewrite_op (Suc 0) (walker_with (always_replace two_results_action) False) one_result_op
     = Some (Inl AssertionError) \<and>
   rewrite_module (Suc 0) (walker_with (always_replace two_results_action) True) one_result_op
     = Some (Inl AssertionError) \<and>
   rtranclp subcall (2, walker_with mismatch_pattern False, mismatch_module)
     (Suc 0, (walker_with mismatch_pattern False)\<lparr>offered := [mismatch_module]\<rparr>, one_result_op) \<and>
   \<not> walk_regions_first ((walker_with mismatch_pattern False)\<lparr>offered := [mismatch_module]\<rparr>) \<and>
   pattern ((walker_with mismatch_pattern False)\<lparr>offered := [mismatch_module]\<rparr>) one_result_op
     (get_new_operands
        (updater ((walker_with mismatch_pattern False)\<lparr>offered := [mismatch_module]\<rparr>))
        one_result_op) = Some two_results_action \<and>
   rewrite_op 2 (walker_with mismatch_pattern False) mismatch_module = Some (Inl AssertionError) \<and>
   rewrite_module 2 (walker_with mismatch_pattern False) mismatch_module
     = Some (Inl AssertionError) \<and>
   rtranclp subcall (2, walker_with mismatch_pattern True, mismatch_module)
     (Suc 0, walker_with mismatch_pattern True, one_result_op) \<and>
   walk_regions_first (walker_with mismatch_pattern True) \<and>
   rewrite_op_regions 0 (walker_with mismatch_pattern True) one_result_op
     = Some (Inr (one_result_op, walker_with mismatch_pattern True)) \<and>
   pattern (walker_with mismatch_pattern True) one_result_op
     (get_new_operands (updater (walker_with mismatch_pattern True)) one_result_op)
     = Some two_results_action \<and>
   rewrite_op 2 (walker_with mismatch_pattern True) mismatch_module = Some (Inl AssertionError) \<and>
   rewrite_module 2 (walker_with mismatch_pattern True) mismatch_module
     = Some (Inl AssertionError)"
proof -
  have h1: "results one_result_op \<noteq> []"
    by (simp add: one_result_op_def plain_op_def)
  have h2: "length (new_results two_results_action) \<noteq> length (results one_result_op)"
    by (simp add: one_result_op_def plain_op_def two_results_action_def)
  have r: "rewrite_op_regions 0 (walker_with (always_replace two_results_action) True) one_result_op
     = Some (Inr (one_result_op, walker_with (always_replace two_results_action) True))"
    by (simp add: rewrite_op_regions_no_regions one_result_op_def plain_op_def)
  have old: "pattern (walker_with (always_replace two_results_action) False) one_result_op
     (get_new_operands (updater (walker_with (always_replace two_results_action) False)) one_result_op)
     = Some two_results_action \<and>
   bookkeep_results \<lparr>result_mapping = Map.empty\<rparr> one_result_op two_results_action = Inl AssertionError \<and>
   rewrite_op (Suc 0) (walker_with (always_replace two_results_action) False) one_result_op
     = Some (Inl AssertionError) \<and>
   rewrite_module (Suc 0) (walker_with (always_replace two_results_action) True) one_result_op
     = Some (Inl AssertionError)"
    using result_count_mismatch_aborts[OF h1 h2, of "\<lparr>result_mapping = Map.empty\<rparr>"
        "walker_with (always_replace two_results_action) False" 0 one_result_op
        "walker_with (always_replace two_results_action) False"]
      result_count_mismatch_aborts[OF h1 h2, of "\<lparr>result_mapping = Map.empty\<rparr>"
        "walker_with (always_replace two_results_action) True" 0 one_result_op
        "walker_with (always_replace two_results_action) True"]
      r
    by (simp add: walker_with_def always_replace_def)
  have s1: "rtranclp subcall (2, walker_with mismatch_pattern False, mismatch_module)
     (Suc 0, (walker_with mismatch_pattern False)\<lparr>offered := [mismatch_module]\<rparr>, one_result_op)"
    using mismatch_subcall(1) by (rule r_into_rtranclp)
  have s2: "rtranclp subcall (2, walker_with mismatch_pattern True, mismatch_module)
     (Suc 0, walker_with mismatch_pattern True, one_result_op)"
    using mismatch_subcall(2) by (rule r_into_rtranclp)
  have f1: "\<not> walk_regions_first ((walker_with mismatch_pattern False)\<lparr>offered := [mismatch_module]\<rparr>)"
    and f2: "walk_regions_first (walker_with mismatch_pattern True)"
    by (simp_all add: walker_with_def)
  have p1: "pattern ((walker_with mismatch_pattern False)\<lparr>offered := [mismatch_module]\<rparr>) one_result_op
     (get_new_operands
        (updater ((walker_with mismatch_pattern False)\<lparr>offered := [mismatch_module]\<rparr>))
        one_result_op) = Some two_results_action"
    and p2: "pattern (walker_with mismatch_pattern True) one_result_op
     (get_new_operands (updater (walker_with mismatch_pattern True)) one_result_op)
     = Some two_results_action"
    by (simp_all add: walker_with_def mismatch_pattern_def one_result_op_def plain_op_def)
  have r2: "rewrite_op_regions 0 (walker_with mismatch_pattern True) one_result_op
     = Some (Inr (one_result_op, walker_with mismatch_pattern True))"
    by (simp add: rewrite_op_regions_no_regions one_result_op_def plain_op_def)
  from result_count_mismatch_aborts[OF h1 h2, of _
        "(walker_with mismatch_pattern False)\<lparr>offered := [mismatch_module]\<rparr>" 0]
    s1 f1 p1
  have n1: "rewrite_op 2 (walker_with mismatch_pattern False) mismatch_module
              = Some (Inl AssertionError) \<and>
            rewrite_module 2 (walker_with mismatch_pattern False) mismatch_module
              = Some (Inl AssertionError)"
    by blast
  from result_count_mismatch_aborts[OF h1 h2, of _ "walker_with mismatch_pattern True" 0
        one_result_op "walker_with mismatch_pattern True"]
    s2 f2 p2 r2
  have n2: "rewrite_op 2 (walker_with mismatch_pattern True) mismatch_module
              = Some (Inl AssertionError) \<and>
            rewrite_module 2 (walker_with mismatch_pattern True) mismatch_module
              = Some (Inl AssertionError)"
    by blast
  from h1 h2 old r s1 f1 p1 n1 s2 f2 r2 p2 n2 show ?thesis by blast
qed

text \<open>
  C6. \<^verbatim>\<open>get_new_value(v)\<close> is the recorded replacement of \<open>v\<close> when \<open>v\<close> is a key of the
  mapping and \<open>v\<close> itself otherwise, after one lookup: the replacement is returned as
  recorded, also when it is itself a key. \<^verbatim>\<open>get_new_operands(op)\<close> applies this lookup
  to each operand, keeping their order and number.
\<close>

theorem get_new_value_single_hop:
  "(result_mapping u v = Some r \<longrightarrow> get_new_value u v = r) \<and>
   (result_mapping u v = None \<longrightarrow> get_new_value u v = v) \<and>
   get_new_operands u op = map (get_new_value u) (operands op) \<and>
   length (get_new_operands u op) = length (operands op) \<and>
   (\<forall>i<length (operands op). get_new_operands u op ! i = get_new_value u (operands op ! i))"
  by (simp add: get_new_value_def get_new_operands_def)

theorem get_new_value_single_hop_witness:
  "result_mapping chain_updater (SSAValue 1) = Some (SSAValue 2) \<and>
   result_mapping chain_updater (SSAValue 2) = Some (SSAValue 3) \<and>
   get_new_value chain_updater (SSAValue 1) = SSAValue 2 \<and>
   result_mapping chain_updater (SSAValue 5) = None \<and>
   get_new_value chain_updater (SSAValue 5) = SSAValue 5 \<and>
   (0::nat) < length (operands chain_user) \<and>
   get_new_operands chain_updater chain_user ! 0 = get_new_value chain_updater (operands chain_user ! 0) \<and>
   get_new_operands chain_updater chain_user = [SSAValue 2, SSAValue 3, SSAValue 5]"
  using get_new_value_single_hop[of chain_updater "SSAValue 1" "SSAValue 2" chain_user]
    get_new_value_single_hop[of chain_updater "SSAValue 5" "SSAValue 5" chain_user]
    get_new_value_single_hop[of chain_updater "SSAValue 2" "SSAValue 3" chain_user]
  by (simp add: chain_updater_def chain_user_def plain_op_def)

text \<open>
  C10. For a matched operation with no result, \<^verbatim>\<open>bookkeep_results\<close> returns without
  recording anything and without failing, whatever the action's \<^verbatim>\<open>new_results\<close>: the
  length check is not reached.
\<close>

theorem bookkeep_results_zero_results:
  "results op = [] \<Longrightarrow> bookkeep_results u op a = Inr u"
  by (simp add: bookkeep_results_def)

theorem bookkeep_results_zero_results_witness:
  "results no_result_op = [] \<and> new_results two_results_action \<noteq> [] \<and>
   bookkeep_results chain_updater no_result_op two_results_action = Inr chain_updater"
  using bookkeep_results_zero_results[of no_result_op chain_updater two_results_action]
  by (simp add: no_result_op_def plain_op_def two_results_action_def)

lemma foldr_max_ge: "x \<in> set xs \<Longrightarrow> f x \<le> foldr max (map f xs) (0::nat)"
  by (induction xs) (auto simp: max_def)

subsection \<open>Block arguments of the rebuilt regions\<close>

lemma rewrite_block_ops_args:
  "rewrite_block_ops rw w xs b = Some (Inr (b', w')) \<Longrightarrow> args b' = args b"
  by (auto simp: rewrite_block_ops_eq and_then_Inr_iff add_ops_def)

lemma rewrite_blocks_args:
  "rewrite_blocks rw w bs r = Some (Inr (r', w')) \<Longrightarrow>
   map args (blocks r') = map args (blocks r) @ map (\<lambda>b. []) bs"
proof (induction bs arbitrary: w r)
  case Nil
  then show ?case by simp
next
  case (Cons b bs)
  from Cons.prems obtain b1 w1 where
    1: "rewrite_block_ops rw w (ops b) Block_init = Some (Inr (b1, w1))" and
    2: "rewrite_blocks rw w1 bs (add_block r b1) = Some (Inr (r', w'))"
    by (auto simp: and_then_Inr_iff)
  from rewrite_block_ops_args[OF 1] have "args b1 = []"
    by (simp add: Block_init_def)
  with Cons.IH[OF 2] show ?case by (simp add: add_block_def)
qed

lemma rewrite_regions_args:
  "rewrite_regions rw w rs acc = Some (Inr (new, w')) \<Longrightarrow>
   map (\<lambda>r. map args (blocks r)) new =
     map (\<lambda>r. map args (blocks r)) acc @ map (\<lambda>r. map (\<lambda>b. []) (blocks r)) rs"
proof (induction rs arbitrary: w acc)
  case Nil
  then show ?case by simp
next
  case (Cons r rs)
  from Cons.prems obtain r1 w1 where
    1: "rewrite_blocks rw w (blocks r) Region_init = Some (Inr (r1, w1))" and
    2: "rewrite_regions rw w1 rs (acc @ [r1]) = Some (Inr (new, w'))"
    by (auto simp: and_then_Inr_iff)
  from rewrite_blocks_args[OF 1] have "map args (blocks r1) = map (\<lambda>b. []) (blocks r)"
    by (simp add: Region_init_def)
  with Cons.IH[OF 2] show ?case by simp
qed

lemmas walk_eval =
  rewrite_op_regions_def rewrite_op_regions_with_eq rewrite_op_Suc
  Block_init_def Region_init_def add_ops_def add_block_def
  update_operands_def get_new_operands_def get_new_value_def
  walker_with_def never_match_def plain_op_def

lemma arg_module_regions:
  "rewrite_op_regions (Suc 0) (walker_with never_match False) arg_module =
     Some (Inr (arg_module_rewritten, (walker_with never_match False)\<lparr>offered := [ret_op]\<rparr>))"
  by (simp add: walk_eval arg_module_def arg_module_rewritten_def ret_op_def del: rewrite_op.simps)

text \<open>
  C3. The claim: after \<^verbatim>\<open>rewrite_op_regions(op)\<close> each new block carries the block
  arguments of the old block it replaces. It fails: the new block is built by
  \<^verbatim>\<open>Block()\<close>, with no arguments, and nothing adds any. The module \<open>arg_module\<close>, whose
  block has the argument \<open>SSAValue 0\<close>, comes back with a block without arguments.
\<close>

theorem block_arguments_not_preserved:
  "rewrite_op_regions (Suc 0) (walker_with never_match False) arg_module =
     Some (Inr (arg_module_rewritten, (walker_with never_match False)\<lparr>offered := [ret_op]\<rparr>)) \<and>
   map args (blocks (hd (regions arg_module))) = [[SSAValue 0]] \<and>
   map args (blocks (hd (regions arg_module_rewritten))) = [[]]"
  using arg_module_regions by (simp add: arg_module_def arg_module_rewritten_def)

text \<open>
  C3, as amended. When \<^verbatim>\<open>rewrite_op_regions(op)\<close> returns, the operation has as many
  regions as before and each new region as many blocks as the region it replaces, and
  every new block has an empty argument list: the arguments of the old blocks are not
  carried over.
\<close>

theorem rebuilt_blocks_have_no_arguments:
  assumes "rewrite_op_regions n w op = Some (Inr (op', w'))"
  shows "map (\<lambda>r. map args (blocks r)) (regions op') =
         map (\<lambda>r. map (\<lambda>b. []) (blocks r)) (regions op)"
proof -
  from assms obtain new where
    1: "rewrite_regions (rewrite_op n) w (regions op) [] = Some (Inr (new, w'))" and
    2: "op' = set_regions op new"
    by (auto simp: rewrite_op_regions_def rewrite_op_regions_with_Inr)
  from rewrite_regions_args[OF 1] 2 show ?thesis by simp
qed

theorem rebuilt_blocks_have_no_arguments_witness:
  "rewrite_op_regions (Suc 0) (walker_with never_match False) arg_module =
     Some (Inr (arg_module_rewritten, (walker_with never_match False)\<lparr>offered := [ret_op]\<rparr>)) \<and>
   map (\<lambda>r. map args (blocks r)) (regions arg_module_rewritten) = [[[]]]"
  using rebuilt_blocks_have_no_arguments[OF arg_module_regions] arg_module_regions
  by (simp add: arg_module_def)

subsection \<open>A walk in which nothing matches\<close>

lemma update_operands_empty:
  "result_mapping u = Map.empty \<Longrightarrow> update_operands u op = op"
  by (cases op) (simp add: update_operands_def get_new_operands_def get_new_value_def map_idI)

lemma clear_block_args_eq:
  "clear_block_args op = set_regions op (map clear_block_args_region (regions op))"
  "clear_block_args_region r = Region (map clear_block_args_block (blocks r))"
  "clear_block_args_block b = Block [] (map clear_block_args (ops b))"
  by (cases op, simp) (cases r, simp, cases b, simp)

lemma rewrite_new_ops_noop:
  assumes "\<And>x l. x \<in> set xs \<Longrightarrow>
             \<exists>l'. rw (w\<lparr>offered := l\<rparr>) x = Some (Inr ([g x], w\<lparr>offered := l'\<rparr>))"
  shows "\<exists>l'. rewrite_new_ops rw (w\<lparr>offered := l\<rparr>) xs acc =
               Some (Inr (acc @ map g xs, w\<lparr>offered := l'\<rparr>))"
  using assms
proof (induction xs arbitrary: l acc)
  case Nil
  show ?case by (simp, blast)
next
  case (Cons x xs)
  from Cons.prems[of x l] obtain l1 where
    1: "rw (w\<lparr>offered := l\<rparr>) x = Some (Inr ([g x], w\<lparr>offered := l1\<rparr>))" by auto
  have "\<exists>l'. rewrite_new_ops rw (w\<lparr>offered := l1\<rparr>) xs (acc @ [g x]) =
               Some (Inr ((acc @ [g x]) @ map g xs, w\<lparr>offered := l'\<rparr>))"
    by (rule Cons.IH) (simp add: Cons.prems)
  with 1 show ?case by simp
qed

lemma rewrite_block_ops_noop:
  assumes "\<And>x l. x \<in> set xs \<Longrightarrow>
             \<exists>l'. rw (w\<lparr>offered := l\<rparr>) x = Some (Inr ([g x], w\<lparr>offered := l'\<rparr>))"
  shows "\<exists>l'. rewrite_block_ops rw (w\<lparr>offered := l\<rparr>) xs Block_init =
               Some (Inr (Block [] (map g xs), w\<lparr>offered := l'\<rparr>))"
proof -
  from rewrite_new_ops_noop[of xs rw w g l "[]", OF assms] obtain l' where
    "rewrite_new_ops rw (w\<lparr>offered := l\<rparr>) xs [] = Some (Inr (map g xs, w\<lparr>offered := l'\<rparr>))"
    by auto
  then show ?thesis
    by (simp add: rewrite_block_ops_eq Block_init_def add_ops_def, blast)
qed

lemma rewrite_blocks_noop:
  assumes "\<And>b x l. b \<in> set bs \<Longrightarrow> x \<in> set (ops b) \<Longrightarrow>
             \<exists>l'. rw (w\<lparr>offered := l\<rparr>) x = Some (Inr ([g x], w\<lparr>offered := l'\<rparr>))"
  shows "\<exists>l'. rewrite_blocks rw (w\<lparr>offered := l\<rparr>) bs r =
               Some (Inr (Region (blocks r @ map (\<lambda>b. Block [] (map g (ops b))) bs),
                          w\<lparr>offered := l'\<rparr>))"
  using assms
proof (induction bs arbitrary: l r)
  case Nil
  show ?case by (cases r) (simp, blast)
next
  case (Cons b bs)
  have "\<exists>l'. rewrite_block_ops rw (w\<lparr>offered := l\<rparr>) (ops b) Block_init =
               Some (Inr (Block [] (map g (ops b)), w\<lparr>offered := l'\<rparr>))"
    by (rule rewrite_block_ops_noop) (rule Cons.prems[of b], simp_all)
  then obtain l1 where
    1: "rewrite_block_ops rw (w\<lparr>offered := l\<rparr>) (ops b) Block_init =
               Some (Inr (Block [] (map g (ops b)), w\<lparr>offered := l1\<rparr>))" by auto
  have "\<exists>l'. rewrite_blocks rw (w\<lparr>offered := l1\<rparr>) bs (add_block r (Block [] (map g (ops b)))) =
               Some (Inr (Region (blocks (add_block r (Block [] (map g (ops b))))
                                  @ map (\<lambda>b. Block [] (map g (ops b))) bs),
                          w\<lparr>offered := l'\<rparr>))"
  proof (rule Cons.IH)
    fix b' x l0
    assume "b' \<in> set bs" "x \<in> set (ops b')"
    then show "\<exists>l'. rw (w\<lparr>offered := l0\<rparr>) x = Some (Inr ([g x], w\<lparr>offered := l'\<rparr>))"
      using Cons.prems[of b' x l0] by simp
  qed
  with 1 show ?case by (simp add: add_block_def)
qed

lemma rewrite_regions_noop:
  assumes "\<And>r b x l. r \<in> set rs \<Longrightarrow> b \<in> set (blocks r) \<Longrightarrow> x \<in> set (ops b) \<Longrightarrow>
             \<exists>l'. rw (w\<lparr>offered := l\<rparr>) x = Some (Inr ([g x], w\<lparr>offered := l'\<rparr>))"
  shows "\<exists>l'. rewrite_regions rw (w\<lparr>offered := l\<rparr>) rs acc =
               Some (Inr (acc @ map (\<lambda>r. Region (map (\<lambda>b. Block [] (map g (ops b))) (blocks r))) rs,
                          w\<lparr>offered := l'\<rparr>))"
  using assms
proof (induction rs arbitrary: l acc)
  case Nil
  show ?case by (simp, blast)
next
  case (Cons r rs)
  have "\<exists>l'. rewrite_blocks rw (w\<lparr>offered := l\<rparr>) (blocks r) Region_init =
               Some (Inr (Region (blocks Region_init @ map (\<lambda>b. Block [] (map g (ops b))) (blocks r)),
                          w\<lparr>offered := l'\<rparr>))"
    by (rule rewrite_blocks_noop) (rule Cons.prems[of r], simp_all)
  then obtain l1 where
    1: "rewrite_blocks rw (w\<lparr>offered := l\<rparr>) (blocks r) Region_init =
               Some (Inr (Region (map (\<lambda>b. Block [] (map g (ops b))) (blocks r)),
                          w\<lparr>offered := l1\<rparr>))"
    by (auto simp: Region_init_def)
  have "\<exists>l'. rewrite_regions rw (w\<lparr>offered := l1\<rparr>) rs
                 (acc @ [Region (map (\<lambda>b. Block [] (map g (ops b))) (blocks r))]) =
               Some (Inr ((acc @ [Region (map (\<lambda>b. Block [] (map g (ops b))) (blocks r))])
                            @ map (\<lambda>r. Region (map (\<lambda>b. Block [] (map g (ops b))) (blocks r))) rs,
                          w\<lparr>offered := l'\<rparr>))"
  proof (rule Cons.IH)
    fix r' b' x l0
    assume "r' \<in> set rs" "b' \<in> set (blocks r')" "x \<in> set (ops b')"
    then show "\<exists>l'. rw (w\<lparr>offered := l0\<rparr>) x = Some (Inr ([g x], w\<lparr>offered := l'\<rparr>))"
      using Cons.prems[of r' b' x l0] by simp
  qed
  with 1 show ?case by simp
qed

lemma sub_op_depth:
  assumes "r \<in> set (regions m)" "b \<in> set (blocks r)" "x \<in> set (ops b)"
  shows "op_depth x < op_depth m"
proof -
  have "op_depth x \<le> block_depth b"
    using assms(3) by (cases b) (simp add: foldr_max_ge)
  also have "\<dots> \<le> region_depth r"
    using assms(2) by (cases r) (simp add: foldr_max_ge)
  also have "\<dots> < op_depth m"
    using assms(1) by (cases m) (simp add: foldr_max_ge less_Suc_eq_le)
  finally show ?thesis .
qed

lemma rewrite_op_regions_noop:
  assumes "\<And>r b x l. r \<in> set (regions m) \<Longrightarrow> b \<in> set (blocks r) \<Longrightarrow> x \<in> set (ops b) \<Longrightarrow>
             \<exists>l'. rewrite_op n (w\<lparr>offered := l\<rparr>) x =
                    Some (Inr ([clear_block_args x], w\<lparr>offered := l'\<rparr>))"
  shows "\<exists>l'. rewrite_op_regions n (w\<lparr>offered := l\<rparr>) m =
               Some (Inr (clear_block_args m, w\<lparr>offered := l'\<rparr>))"
proof -
  have "\<exists>l'. rewrite_regions (rewrite_op n) (w\<lparr>offered := l\<rparr>) (regions m) [] =
       Some (Inr ([] @ map (\<lambda>r. Region (map (\<lambda>b. Block [] (map clear_block_args (ops b))) (blocks r)))
                    (regions m), w\<lparr>offered := l'\<rparr>))"
    by (rule rewrite_regions_noop) (rule assms, assumption+)
  then obtain l' where
    "rewrite_regions (rewrite_op n) (w\<lparr>offered := l\<rparr>) (regions m) [] =
       Some (Inr (map (\<lambda>r. Region (map (\<lambda>b. Block [] (map clear_block_args (ops b))) (blocks r)))
                    (regions m), w\<lparr>offered := l'\<rparr>))"
    by auto
  moreover have "map (\<lambda>r. Region (map (\<lambda>b. Block [] (map clear_block_args (ops b))) (blocks r)))
                    (regions m) = map clear_block_args_region (regions m)"
    by (simp add: clear_block_args_eq(2,3))
  ultimately have "rewrite_op_regions n (w\<lparr>offered := l\<rparr>) m =
      Some (Inr (clear_block_args m, w\<lparr>offered := l'\<rparr>))"
    by (simp add: rewrite_op_regions_def rewrite_op_regions_with_eq clear_block_args_eq(1))
  then show ?thesis by blast
qed

lemma no_match_walk:
  assumes "\<forall>op nops. pattern w op nops = None"
    and "result_mapping (updater w) = Map.empty"
    and "op_depth m \<le> n"
  shows "\<exists>l'. rewrite_op n (w\<lparr>offered := l\<rparr>) m =
              Some (Inr ([clear_block_args m], w\<lparr>offered := l'\<rparr>))"
  using assms(3)
proof (induction n arbitrary: m l)
  case 0
  then show ?case by (cases m) simp
next
  case (Suc n)
  have sub: "\<exists>l'. rewrite_op n (w\<lparr>offered := l0\<rparr>) x =
                  Some (Inr ([clear_block_args x], w\<lparr>offered := l'\<rparr>))"
    if "r \<in> set (regions m')" "b \<in> set (blocks r)" "x \<in> set (ops b)" "op_depth m' \<le> Suc n"
    for r b x l0 m'
  proof (rule Suc.IH)
    from sub_op_depth[OF that(1,2,3)] that(4) show "op_depth x \<le> n" by simp
  qed
  have nm: "pattern w op nops = None" for op nops
    using assms(1) by simp
  have upd: "update_operands (updater w) op = op" for op
    using assms(2) by (rule update_operands_empty)
  show ?case
  proof (cases "walk_regions_first w")
    case True
    have "\<exists>l'. rewrite_op_regions n (w\<lparr>offered := l\<rparr>) m =
               Some (Inr (clear_block_args m, w\<lparr>offered := l'\<rparr>))"
      by (rule rewrite_op_regions_noop) (rule sub[OF _ _ _ Suc.prems], assumption+)
    then obtain l1 where "rewrite_op_regions n (w\<lparr>offered := l\<rparr>) m =
               Some (Inr (clear_block_args m, w\<lparr>offered := l1\<rparr>))" by blast
    then have "rewrite_op (Suc n) (w\<lparr>offered := l\<rparr>) m =
        Some (Inr ([clear_block_args m], w\<lparr>offered := l1 @ [clear_block_args m]\<rparr>))"
      unfolding rewrite_op_Suc using True by (simp add: nm upd)
    then show ?thesis by blast
  next
    case False
    have "\<exists>l'. rewrite_op_regions n (w\<lparr>offered := l @ [m]\<rparr>) m =
               Some (Inr (clear_block_args m, w\<lparr>offered := l'\<rparr>))"
      by (rule rewrite_op_regions_noop) (rule sub[OF _ _ _ Suc.prems], assumption+)
    then obtain l1 where "rewrite_op_regions n (w\<lparr>offered := l @ [m]\<rparr>) m =
               Some (Inr (clear_block_args m, w\<lparr>offered := l1\<rparr>))" by blast
    then have "rewrite_op (Suc n) (w\<lparr>offered := l\<rparr>) m =
        Some (Inr ([clear_block_args m], w\<lparr>offered := l1\<rparr>))"
      unfolding rewrite_op_Suc using False by (simp add: nm upd)
    then show ?thesis by blast
  qed
qed

lemma arg_module_walk:
  "rewrite_op 2 (walker_with never_match False) arg_module =
     Some (Inr ([arg_module_rewritten],
                (walker_with never_match False)\<lparr>offered := [arg_module, ret_op]\<rparr>))"
  unfolding numeral_2_eq_2
  by (simp add: walk_eval arg_module_def arg_module_rewritten_def ret_op_def del: rewrite_op.simps)

text \<open>
  C4. The claim: with a pattern that never matches, the walk returns an operation
  structurally equal to the input, block arguments included. It fails on the block
  arguments: \<open>arg_module\<close> is rewritten into \<open>arg_module_rewritten\<close>, whose block has lost
  its argument.
\<close>

theorem no_match_walk_not_structurally_equal:
  "rewrite_op 2 (walker_with never_match False) arg_module =
     Some (Inr ([arg_module_rewritten],
                (walker_with never_match False)\<lparr>offered := [arg_module, ret_op]\<rparr>)) \<and>
   arg_module_rewritten \<noteq> arg_module \<and>
   args (hd (blocks (hd (regions arg_module)))) = [SSAValue 0] \<and>
   args (hd (blocks (hd (regions arg_module_rewritten)))) = []"
  using arg_module_walk by (simp add: arg_module_def arg_module_rewritten_def)

text \<open>
  C4, as amended. For every operation \<open>m\<close>, a walker whose pattern never matches and whose
  bookkeeping is empty returns from \<^verbatim>\<open>rewrite_op(m)\<close>, in either traversal order and
  within a recursion depth equal to the nesting depth of \<open>m\<close>, exactly one operation:
  \<open>m\<close> with the same kinds, operands, results, attributes and region, block and operation
  nesting, and with every block argument list empty. The bookkeeping is unchanged.
\<close>

theorem no_match_walk_keeps_all_but_block_arguments:
  assumes "\<forall>op nops. pattern w op nops = None"
    and "result_mapping (updater w) = Map.empty"
    and "op_depth m \<le> n"
  shows "\<exists>log. rewrite_op n w m = Some (Inr ([clear_block_args m], w\<lparr>offered := log\<rparr>))"
  using no_match_walk[OF assms, of "offered w"] by simp

theorem no_match_walk_keeps_all_but_block_arguments_witness:
  "(\<forall>op nops. pattern (walker_with never_match False) op nops = None) \<and>
   result_mapping (updater (walker_with never_match False)) = Map.empty \<and>
   op_depth arg_module \<le> 2 \<and>
   clear_block_args arg_module = arg_module_rewritten \<and>
   (\<exists>log. rewrite_op 2 (walker_with never_match False) arg_module =
      Some (Inr ([arg_module_rewritten], (walker_with never_match False)\<lparr>offered := log\<rparr>)))"
proof -
  have h1: "\<forall>op nops. pattern (walker_with never_match False) op nops = None"
    by (simp add: walker_with_def never_match_def)
  have h2: "result_mapping (updater (walker_with never_match False)) = Map.empty"
    by (simp add: walker_with_def)
  have h3: "op_depth arg_module \<le> 2"
    by (simp add: arg_module_def ret_op_def plain_op_def)
  have c: "clear_block_args arg_module = arg_module_rewritten"
    by (simp add: arg_module_def arg_module_rewritten_def ret_op_def plain_op_def)
  from no_match_walk_keeps_all_but_block_arguments[OF h1 h2 h3] h1 h2 h3 c
  show ?thesis by simp
qed

lemma rewrite_regions_length:
  assumes "rewrite_regions rw w rs [] = Some (Inr (new, w'))"
  shows "length new = length rs"
proof -
  from rewrite_regions_args[OF assms]
  have "length (map (\<lambda>r. map args (blocks r)) new)
        = length (map (\<lambda>r. map (\<lambda>b. []) (blocks r)) rs)"
    by simp
  then show ?thesis by simp
qed

lemma set_operands_set_regions:
  "set_operands (set_regions op rs) os = set_regions (set_operands op os) rs"
  by (cases op) simp

lemma rewrite_op_regions_Inr:
  "rewrite_op_regions n w op = Some (Inr (op', w')) \<longleftrightarrow>
     (\<exists>new. rewrite_regions (rewrite_op n) w (regions op) [] = Some (Inr (new, w')) \<and>
            op' = set_regions op new)"
  by (simp add: rewrite_op_regions_def rewrite_op_regions_with_Inr)

text \<open>
  C9. When the pattern does not match the operation it is offered, \<^verbatim>\<open>rewrite_op(op)\<close>
  returns the one-element list holding that operation: with regions first, as soon as
  the regions are rebuilt; otherwise exactly when the rebuild of its regions returns;
  always, for an operation without regions. The operation returned is \<open>op\<close> with its
  operands replaced by their live values and its regions replaced by as many new ones;
  its kind, its results and its attributes are those of \<open>op\<close>. Here \<open>op1\<close> and \<open>w1\<close> are the
  operation and the walker at the moment the pattern is called: \<open>op\<close> and \<open>w\<close> themselves,
  or what \<^verbatim>\<open>rewrite_op_regions\<close> has left when regions are walked first.
\<close>

theorem no_match_returns_same_operation:
  assumes pre: "(if walk_regions_first w then rewrite_op_regions n w op else Some (Inr (op, w)))
                  = Some (Inr (op1, w1))"
    and nm: "pattern w op1 (get_new_operands (updater w1) op1) = None"
  shows "(walk_regions_first w \<longrightarrow>
            rewrite_op (Suc n) w op =
              Some (Inr ([update_operands (updater w1) op1], w1\<lparr>offered := offered w1 @ [op1]\<rparr>))) \<and>
         (\<not> walk_regions_first w \<longrightarrow>
            rewrite_op (Suc n) w op =
              and_then (rewrite_op_regions n (w\<lparr>offered := offered w @ [op]\<rparr>)
                          (update_operands (updater w) op))
                (\<lambda>(op3, w3). Some (Inr ([op3], w3)))) \<and>
         (regions op = [] \<longrightarrow>
            rewrite_op (Suc n) w op =
              Some (Inr ([set_operands op (get_new_operands (updater w) op)],
                         w\<lparr>offered := offered w @ [op]\<rparr>))) \<and>
         (\<forall>out w'. rewrite_op (Suc n) w op = Some (Inr (out, w')) \<longrightarrow>
            (\<exists>op'. out = [op'] \<and> kind op' = kind op \<and> results op' = results op \<and>
                   attributes op' = attributes op \<and>
                   operands op' = get_new_operands (updater w1) op \<and>
                   length (regions op') = length (regions op)))"
proof -
  have pw: "pattern w1 = pattern w" and fw: "walk_regions_first w1 = walk_regions_first w"
    using pre rewrite_op_regions_frame[of n w op op1 w1]
    by (auto simp: extends_def split: if_splits)
  have a: "rewrite_op (Suc n) w op =
              Some (Inr ([update_operands (updater w1) op1], w1\<lparr>offered := offered w1 @ [op1]\<rparr>))"
    if "walk_regions_first w"
    unfolding rewrite_op_Suc using that pre nm pw fw by simp
  have b: "rewrite_op (Suc n) w op =
              and_then (rewrite_op_regions n (w\<lparr>offered := offered w @ [op]\<rparr>)
                          (update_operands (updater w) op))
                (\<lambda>(op3, w3). Some (Inr ([op3], w3)))"
    if "\<not> walk_regions_first w"
    unfolding rewrite_op_Suc using that pre nm by auto
  have c: "rewrite_op (Suc n) w op =
              Some (Inr ([set_operands op (get_new_operands (updater w) op)],
                         w\<lparr>offered := offered w @ [op]\<rparr>))"
    if r: "regions op = []"
  proof (cases "walk_regions_first w")
    case True
    with pre r have "op1 = op" "w1 = w"
      by (simp_all add: rewrite_op_regions_no_regions)
    with a[OF True] show ?thesis by (simp add: update_operands_def)
  next
    case False
    from r have "regions (update_operands (updater w) op) = []"
      by (simp add: update_operands_def)
    then show ?thesis
      unfolding b[OF False] by (simp add: rewrite_op_regions_no_regions update_operands_def)
  qed
  have d: "\<exists>op'. out = [op'] \<and> kind op' = kind op \<and> results op' = results op \<and>
                   attributes op' = attributes op \<and>
                   operands op' = get_new_operands (updater w1) op \<and>
                   length (regions op') = length (regions op)"
    if ret: "rewrite_op (Suc n) w op = Some (Inr (out, w'))" for out w'
  proof (cases "walk_regions_first w")
    case True
    with pre obtain new where
      1: "rewrite_regions (rewrite_op n) w (regions op) [] = Some (Inr (new, w1))" and
      2: "op1 = set_regions op new"
      by (auto simp: rewrite_op_regions_Inr)
    from ret a[OF True] have "out = [update_operands (updater w1) op1]" by simp
    with 2 rewrite_regions_length[OF 1] show ?thesis
      by (simp add: update_operands_def get_new_operands_def)
  next
    case False
    with pre have e: "op1 = op" "w1 = w" by simp_all
    from ret b[OF False] obtain op3 where
      3: "rewrite_op_regions n (w\<lparr>offered := offered w @ [op]\<rparr>)
            (update_operands (updater w) op) = Some (Inr (op3, w'))" and
      4: "out = [op3]"
      by (auto simp: and_then_Inr_iff)
    from 3 obtain new where
      5: "rewrite_regions (rewrite_op n) (w\<lparr>offered := offered w @ [op]\<rparr>)
            (regions (update_operands (updater w) op)) [] = Some (Inr (new, w'))" and
      6: "op3 = set_regions (update_operands (updater w) op) new"
      by (auto simp: rewrite_op_regions_Inr)
    from rewrite_regions_length[OF 5] 4 6 e show ?thesis
      by (simp add: update_operands_def)
  qed
  from a b c d show ?thesis by blast
qed

theorem no_match_returns_same_operation_witness:
  "rewrite_op_regions 0 (walker_with never_match True) ret_op =
     Some (Inr (ret_op, walker_with never_match True)) \<and>
   pattern (walker_with never_match True) ret_op
     (get_new_operands (updater (walker_with never_match True)) ret_op) = None \<and>
   walk_regions_first (walker_with never_match True) \<and>
   regions ret_op = [] \<and>
   rewrite_op (Suc 0) (walker_with never_match True) ret_op =
     Some (Inr ([ret_op], (walker_with never_match True)\<lparr>offered := [ret_op]\<rparr>)) \<and>
   \<not> walk_regions_first (walker_with never_match False) \<and>
   pattern (walker_with never_match False) arg_module
     (get_new_operands (updater (walker_with never_match False)) arg_module) = None \<and>
   rewrite_op 2 (walker_with never_match False) arg_module =
     Some (Inr ([arg_module_rewritten],
                (walker_with never_match False)\<lparr>offered := [arg_module, ret_op]\<rparr>)) \<and>
   kind arg_module_rewritten = kind arg_module \<and>
   results arg_module_rewritten = results arg_module \<and>
   attributes arg_module_rewritten = attributes arg_module \<and>
   operands arg_module_rewritten =
     get_new_operands (updater (walker_with never_match False)) arg_module \<and>
   length (regions arg_module_rewritten) = length (regions arg_module)"
proof -
  have r0: "regions ret_op = []"
    by (simp add: ret_op_def plain_op_def)
  have p1: "(if walk_regions_first (walker_with never_match True)
             then rewrite_op_regions 0 (walker_with never_match True) ret_op
             else Some (Inr (ret_op, walker_with never_match True)))
            = Some (Inr (ret_op, walker_with never_match True))"
    by (simp add: rewrite_op_regions_no_regions r0)
  have n1: "pattern (walker_with never_match True) ret_op
     (get_new_operands (updater (walker_with never_match True)) ret_op) = None"
    by (simp add: walker_with_def never_match_def)
  have p2: "(if walk_regions_first (walker_with never_match False)
             then rewrite_op_regions 1 (walker_with never_match False) arg_module
             else Some (Inr (arg_module, walker_with never_match False)))
            = Some (Inr (arg_module, walker_with never_match False))"
    by (simp add: walker_with_def)
  have n2: "pattern (walker_with never_match False) arg_module
     (get_new_operands (updater (walker_with never_match False)) arg_module) = None"
    by (simp add: walker_with_def never_match_def)
  have o: "set_operands ret_op (get_new_operands (updater (walker_with never_match True)) ret_op)
           = ret_op"
    by (simp add: walker_with_def ret_op_def plain_op_def get_new_operands_def get_new_value_def)
  have f1: "walk_regions_first (walker_with never_match True)"
    and f2: "\<not> walk_regions_first (walker_with never_match False)"
    and l1: "offered (walker_with never_match True) = []"
    by (simp_all add: walker_with_def)
  have w2: "rewrite_op (Suc 1) (walker_with never_match False) arg_module =
     Some (Inr ([arg_module_rewritten],
                (walker_with never_match False)\<lparr>offered := [arg_module, ret_op]\<rparr>))"
    using arg_module_walk by (simp add: numeral_2_eq_2)
  from no_match_returns_same_operation[OF p1 n1] f1
  have "rewrite_op (Suc 0) (walker_with never_match True) ret_op =
     Some (Inr ([update_operands (updater (walker_with never_match True)) ret_op],
                (walker_with never_match True)
                  \<lparr>offered := offered (walker_with never_match True) @ [ret_op]\<rparr>))"
    by blast
  then have e1: "rewrite_op (Suc 0) (walker_with never_match True) ret_op =
     Some (Inr ([ret_op], (walker_with never_match True)\<lparr>offered := [ret_op]\<rparr>))"
    by (simp add: update_operands_def o l1)
  from no_match_returns_same_operation[OF p2 n2] w2
  have "\<exists>op'. [arg_module_rewritten] = [op'] \<and> kind op' = kind arg_module \<and>
          results op' = results arg_module \<and> attributes op' = attributes arg_module \<and>
          operands op' = get_new_operands (updater (walker_with never_match False)) arg_module \<and>
          length (regions op') = length (regions arg_module)"
    by blast
  then have e2: "kind arg_module_rewritten = kind arg_module \<and>
          results arg_module_rewritten = results arg_module \<and>
          attributes arg_module_rewritten = attributes arg_module \<and>
          operands arg_module_rewritten =
            get_new_operands (updater (walker_with never_match False)) arg_module \<and>
          length (regions arg_module_rewritten) = length (regions arg_module)"
    by auto
  from p1 f1 have p1': "rewrite_op_regions 0 (walker_with never_match True) ret_op =
     Some (Inr (ret_op, walker_with never_match True))" by simp
  from p1' n1 f1 r0 e1 f2 n2 arg_module_walk e2 show ?thesis by blast
qed

subsection \<open>The loop over the new operations of an action\<close>

lemma rewrite_new_ops_Cons_Inr:
  "rewrite_new_ops rw w (x # xs) [] = Some (Inr (out, w')) \<longleftrightarrow>
     (\<exists>o1 w1 out2. rw w x = Some (Inr (o1, w1)) \<and>
        rewrite_new_ops rw w1 xs [] = Some (Inr (out2, w')) \<and> out = o1 @ out2)"
proof -
  have "rewrite_new_ops rw w1 xs o1 = Some (Inr (out, w')) \<longleftrightarrow>
        (\<exists>out2. rewrite_new_ops rw w1 xs [] = Some (Inr (out2, w')) \<and> out = o1 @ out2)"
    for o1 w1
    unfolding rewrite_new_ops_acc[of rw w1 xs o1] by (auto simp: and_then_Inr_iff)
  then show ?thesis
    by (auto simp: and_then_Inr_iff)
qed

lemma rewrite_new_ops_runs:
  "rewrite_new_ops rw w xs [] = Some (Inr (out, w')) \<longleftrightarrow>
     (\<exists>outs ws. length outs = length xs \<and> length ws = Suc (length xs) \<and>
        hd ws = w \<and> last ws = w' \<and>
        (\<forall>i<length xs. rw (ws ! i) (xs ! i) = Some (Inr (outs ! i, ws ! Suc i))) \<and>
        out = concat outs)"
proof (induction xs arbitrary: w out)
  case Nil
  show ?case
  proof
    assume "rewrite_new_ops rw w [] [] = Some (Inr (out, w'))"
    then have "out = []" "w' = w" by simp_all
    then have "length ([]::Operation list list) = length ([]::Operation list) \<and>
        length [w] = Suc (length ([]::Operation list)) \<and> hd [w] = w \<and> last [w] = w' \<and>
        out = concat []" by simp
    then show "\<exists>outs ws. length outs = length [] \<and> length ws = Suc (length []) \<and>
        hd ws = w \<and> last ws = w' \<and>
        (\<forall>i<length []. rw (ws ! i) ([] ! i) = Some (Inr (outs ! i, ws ! Suc i))) \<and>
        out = concat outs"
      by (intro exI[of _ "[]"] exI[of _ "[w]"]) simp
  next
    assume "\<exists>outs ws. length outs = length [] \<and> length ws = Suc (length []) \<and>
        hd ws = w \<and> last ws = w' \<and>
        (\<forall>i<length []. rw (ws ! i) ([] ! i) = Some (Inr (outs ! i, ws ! Suc i))) \<and>
        out = concat outs"
    then obtain outs ws where "outs = []" "length ws = Suc 0" "hd ws = w" "last ws = w'"
      "out = concat outs" by auto
    then show "rewrite_new_ops rw w [] [] = Some (Inr (out, w'))"
      by (cases ws) auto
  qed
next
  case (Cons x xs)
  show ?case
  proof
    assume "rewrite_new_ops rw w (x # xs) [] = Some (Inr (out, w'))"
    then obtain o1 w1 out2 where
      1: "rw w x = Some (Inr (o1, w1))" and
      2: "rewrite_new_ops rw w1 xs [] = Some (Inr (out2, w'))" and
      3: "out = o1 @ out2"
      unfolding rewrite_new_ops_Cons_Inr by blast
    from 2 obtain outs ws where
      l1: "length outs = length xs" and l2: "length ws = Suc (length xs)" and
      h: "hd ws = w1" and la: "last ws = w'" and
      st: "\<forall>i<length xs. rw (ws ! i) (xs ! i) = Some (Inr (outs ! i, ws ! Suc i))" and
      c: "out2 = concat outs"
      unfolding Cons.IH by blast
    from l2 have ne: "ws \<noteq> []" by auto
    with h have h0: "ws ! 0 = w1" by (simp add: hd_conv_nth)
    have "\<forall>i<length (x # xs).
            rw ((w # ws) ! i) ((x # xs) ! i) = Some (Inr ((o1 # outs) ! i, (w # ws) ! Suc i))"
    proof (intro allI impI)
      fix i assume "i < length (x # xs)"
      then show "rw ((w # ws) ! i) ((x # xs) ! i) = Some (Inr ((o1 # outs) ! i, (w # ws) ! Suc i))"
        using 1 h0 st by (cases i) simp_all
    qed
    moreover have "length (o1 # outs) = length (x # xs)" using l1 by simp
    moreover have "length (w # ws) = Suc (length (x # xs))" using l2 by simp
    moreover have "hd (w # ws) = w" by simp
    moreover have "last (w # ws) = w'" using ne la by simp
    moreover have "out = concat (o1 # outs)" using 3 c by simp
    ultimately show "\<exists>outs ws. length outs = length (x # xs) \<and> length ws = Suc (length (x # xs)) \<and>
        hd ws = w \<and> last ws = w' \<and>
        (\<forall>i<length (x # xs). rw (ws ! i) ((x # xs) ! i) = Some (Inr (outs ! i, ws ! Suc i))) \<and>
        out = concat outs"
      by blast
  next
    assume "\<exists>outs ws. length outs = length (x # xs) \<and> length ws = Suc (length (x # xs)) \<and>
        hd ws = w \<and> last ws = w' \<and>
        (\<forall>i<length (x # xs). rw (ws ! i) ((x # xs) ! i) = Some (Inr (outs ! i, ws ! Suc i))) \<and>
        out = concat outs"
    then obtain outs' ws' where
      l1: "length outs' = Suc (length xs)" and l2: "length ws' = Suc (Suc (length xs))" and
      h: "hd ws' = w" and la: "last ws' = w'" and
      st: "\<forall>i<Suc (length xs). rw (ws' ! i) ((x # xs) ! i) = Some (Inr (outs' ! i, ws' ! Suc i))" and
      c: "out = concat outs'"
      by auto
    from l1 obtain o1 outs where o: "outs' = o1 # outs" and lo: "length outs = length xs"
      by (cases outs') auto
    from l2 h obtain ws where w: "ws' = w # ws" and lw: "length ws = Suc (length xs)"
      by (cases ws') auto
    from lw have ne: "ws \<noteq> []" by auto
    from st[rule_format, of 0] o w have 1: "rw w x = Some (Inr (o1, ws ! 0))" by simp
    have st': "\<forall>i<length xs. rw (ws ! i) (xs ! i) = Some (Inr (outs ! i, ws ! Suc i))"
    proof (intro allI impI)
      fix i assume "i < length xs"
      with st[rule_format, of "Suc i"] o w
      show "rw (ws ! i) (xs ! i) = Some (Inr (outs ! i, ws ! Suc i))" by simp
    qed
    have "rewrite_new_ops rw (ws ! 0) xs [] = Some (Inr (concat outs, w'))"
      unfolding Cons.IH
      using lo lw st' la w ne by (intro exI[of _ outs] exI[of _ ws]) (simp add: hd_conv_nth)
    with 1 c o show "rewrite_new_ops rw w (x # xs) [] = Some (Inr (out, w'))"
      unfolding rewrite_new_ops_Cons_Inr by auto
  qed
qed


lemma cascade_walk:
  "rewrite_op 3 (walker_with cascade_pattern False) op_a =
     Some (Inr ([op_d, set_operands op_c [SSAValue 6]], cascade_final))"
  unfolding numeral_3_eq_3
  by (simp add: walk_eval cascade_pattern_def cascade_final_def action_a_def RewriteAction_init_def
      bookkeep_results_def op_a_def op_b_def op_c_def op_d_def)

text \<open>
  C7. When the pattern matches the operation it is offered with the action \<open>a\<close>,
  \<^verbatim>\<open>rewrite_op(op)\<close> returns \<open>out\<close> exactly when: the substitution from the results of
  \<open>op\<close> to \<^verbatim>\<open>a.new_results\<close> is recorded first (giving the bookkeeping \<open>u\<close>), then
  \<^verbatim>\<open>rewrite_op\<close> is called on each operation of \<^verbatim>\<open>a.new_ops\<close> in order, each call
  starting from the walker the previous one left (\<open>ws\<close>) and returning a list
  (\<open>outs ! i\<close>) of any length, and \<open>out\<close> is the concatenation of these lists. Here \<open>op1\<close>
  and \<open>w1\<close> are the operation and the walker at the moment the pattern is called, as in
  C9. In the cascade, \<open>b\<close> is itself rewritten as soon as it is produced.
\<close>

theorem match_rewrites_new_ops_in_order:
  assumes pre: "(if walk_regions_first w then rewrite_op_regions n w op else Some (Inr (op, w)))
                  = Some (Inr (op1, w1))"
    and m: "pattern w op1 (get_new_operands (updater w1) op1) = Some a"
  shows "rewrite_op (Suc n) w op = Some (Inr (out, w')) \<longleftrightarrow>
     (\<exists>u outs ws.
        bookkeep_results (updater w1) op1 a = Inr u \<and>
        result_mapping u = (result_mapping (updater w1))(results op [\<mapsto>] new_results a) \<and>
        length outs = length (new_ops a) \<and> length ws = Suc (length (new_ops a)) \<and>
        hd ws = w1\<lparr>offered := offered w1 @ [op1], updater := u\<rparr> \<and> last ws = w' \<and>
        (\<forall>i<length (new_ops a).
           rewrite_op n (ws ! i) (new_ops a ! i) = Some (Inr (outs ! i, ws ! Suc i))) \<and>
        out = concat outs)"
proof -
  have pw: "pattern w1 = pattern w" and ro: "results op1 = results op"
    using pre rewrite_op_regions_frame[of n w op op1 w1]
    by (auto simp: extends_def split: if_splits)
  have "rewrite_op (Suc n) w op = Some (Inr (out, w')) \<longleftrightarrow>
     (\<exists>u. bookkeep_results (updater w1) op1 a = Inr u \<and>
          rewrite_new_ops (rewrite_op n) (w1\<lparr>offered := offered w1 @ [op1], updater := u\<rparr>)
            (new_ops a) [] = Some (Inr (out, w')))"
    unfolding rewrite_op_Suc using pre m pw
    by (auto simp: rewrite_op_regions_def split: sum.splits if_splits)
  also have "\<dots> \<longleftrightarrow>
     (\<exists>u. bookkeep_results (updater w1) op1 a = Inr u \<and>
          result_mapping u = (result_mapping (updater w1))(results op [\<mapsto>] new_results a) \<and>
          rewrite_new_ops (rewrite_op n) (w1\<lparr>offered := offered w1 @ [op1], updater := u\<rparr>)
            (new_ops a) [] = Some (Inr (out, w')))"
    using bookkeep_results_mapping[of "updater w1" op1 a] ro by auto
  finally show ?thesis
    unfolding rewrite_new_ops_runs by blast
qed

theorem match_rewrites_new_ops_in_order_witness:
  "\<not> walk_regions_first (walker_with cascade_pattern False) \<and>
   pattern (walker_with cascade_pattern False) op_a
     (get_new_operands (updater (walker_with cascade_pattern False)) op_a) = Some action_a \<and>
   rewrite_op 3 (walker_with cascade_pattern False) op_a =
     Some (Inr ([op_d, set_operands op_c [SSAValue 6]], cascade_final)) \<and>
   (\<exists>u outs ws.
      bookkeep_results (updater (walker_with cascade_pattern False)) op_a action_a = Inr u \<and>
      result_mapping u =
        (result_mapping (updater (walker_with cascade_pattern False)))
          (results op_a [\<mapsto>] new_results action_a) \<and>
      length outs = length (new_ops action_a) \<and> length ws = Suc (length (new_ops action_a)) \<and>
      hd ws = (walker_with cascade_pattern False)
                \<lparr>offered := offered (walker_with cascade_pattern False) @ [op_a], updater := u\<rparr> \<and>
      last ws = cascade_final \<and>
      (\<forall>i<length (new_ops action_a).
         rewrite_op 2 (ws ! i) (new_ops action_a ! i) = Some (Inr (outs ! i, ws ! Suc i))) \<and>
      [op_d, set_operands op_c [SSAValue 6]] = concat outs)"
proof -
  have f: "\<not> walk_regions_first (walker_with cascade_pattern False)"
    by (simp add: walker_with_def)
  then have pre: "(if walk_regions_first (walker_with cascade_pattern False)
               then rewrite_op_regions 2 (walker_with cascade_pattern False) op_a
               else Some (Inr (op_a, walker_with cascade_pattern False)))
              = Some (Inr (op_a, walker_with cascade_pattern False))"
    by simp
  have m: "pattern (walker_with cascade_pattern False) op_a
     (get_new_operands (updater (walker_with cascade_pattern False)) op_a) = Some action_a"
    by (simp add: walker_with_def cascade_pattern_def op_a_def plain_op_def)
  have w: "rewrite_op (Suc 2) (walker_with cascade_pattern False) op_a =
     Some (Inr ([op_d, set_operands op_c [SSAValue 6]], cascade_final))"
    using cascade_walk by (simp add: numeral_3_eq_3 numeral_2_eq_2)
  from iffD1[OF match_rewrites_new_ops_in_order[OF pre m] w] f m cascade_walk
  show ?thesis by blast
qed

subsection \<open>The order in which operations are offered\<close>

lemma arg_module_walk_regions_first:
  "rewrite_op 2 (walker_with never_match True) arg_module =
     Some (Inr ([arg_module_rewritten],
                (walker_with never_match True)\<lparr>offered := [ret_op, arg_module_rewritten]\<rparr>))"
  unfolding numeral_2_eq_2
  by (simp add: walk_eval arg_module_def arg_module_rewritten_def ret_op_def)

lemma extends_offered: "extends w w' \<Longrightarrow> offered w' = offered w @ newly_offered w w'"
  by (auto simp: extends_def newly_offered_def prefix_def)

lemma newly_offered_trans:
  assumes "extends a b" "extends b c"
  shows "newly_offered a c = newly_offered a b @ newly_offered b c"
proof -
  from extends_offered[OF assms(1)] extends_offered[OF assms(2)]
  have "offered c = offered a @ newly_offered a b @ newly_offered b c" by simp
  then show ?thesis by (simp add: newly_offered_def[of a c])
qed

lemma newly_offered_log [simp]:
  "newly_offered (w\<lparr>offered := l\<rparr>) w' = drop (length l) (offered w')"
  "newly_offered w (w'\<lparr>offered := l\<rparr>) = drop (length (offered w)) l"
  by (simp_all add: newly_offered_def)

lemma rewrite_new_ops_offers:
  assumes rw: "offers_kind rw"
    and r: "rewrite_new_ops rw w xs acc = Some (Inr (out, w'))"
    and x: "x \<in> set xs"
  shows "kind x \<in> kind ` set (newly_offered w w')"
  using r x
proof (induction xs arbitrary: w acc)
  case Nil
  then show ?case by simp
next
  case (Cons y ys)
  from Cons.prems(1) obtain o1 w1 where
    1: "rw w y = Some (Inr (o1, w1))" and
    2: "rewrite_new_ops rw w1 ys (acc @ o1) = Some (Inr (out, w'))"
    by (auto simp: and_then_Inr_iff)
  from rw 1 have e1: "extends w w1" and k1: "kind y \<in> kind ` set (newly_offered w w1)"
    by (auto simp: offers_kind_def)
  have rwe: "\<And>w x out w'. rw w x = Some (Inr (out, w')) \<Longrightarrow> extends w w'"
    using rw by (auto simp: offers_kind_def)
  from rwe 2 have e2: "extends w1 w'" by (rule rewrite_new_ops_extends)
  note t = newly_offered_trans[OF e1 e2]
  show ?case
  proof (cases "x = y")
    case True
    with k1 t show ?thesis by auto
  next
    case False
    with Cons.prems(2) have "x \<in> set ys" by simp
    from Cons.IH[OF 2 this] t show ?thesis by auto
  qed
qed

lemma rewrite_block_ops_offers:
  assumes rw: "offers_kind rw"
    and r: "rewrite_block_ops rw w xs b = Some (Inr (b', w'))"
    and x: "x \<in> set xs"
  shows "kind x \<in> kind ` set (newly_offered w w')"
proof -
  from r obtain out where "rewrite_new_ops rw w xs [] = Some (Inr (out, w'))"
    by (auto simp: rewrite_block_ops_eq and_then_Inr_iff)
  with rw show ?thesis using x by (rule rewrite_new_ops_offers)
qed

lemma rewrite_blocks_offers:
  assumes rw: "offers_kind rw"
    and r: "rewrite_blocks rw w bs rg = Some (Inr (rg', w'))"
    and b: "b \<in> set bs" and x: "x \<in> set (ops b)"
  shows "kind x \<in> kind ` set (newly_offered w w')"
  using r b
proof (induction bs arbitrary: w rg)
  case Nil
  then show ?case by simp
next
  case (Cons c cs)
  from Cons.prems(1) obtain b1 w1 where
    1: "rewrite_block_ops rw w (ops c) Block_init = Some (Inr (b1, w1))" and
    2: "rewrite_blocks rw w1 cs (add_block rg b1) = Some (Inr (rg', w'))"
    by (auto simp: and_then_Inr_iff)
  have rwe: "\<And>w x out w'. rw w x = Some (Inr (out, w')) \<Longrightarrow> extends w w'"
    using rw by (auto simp: offers_kind_def)
  from rwe 1 have e1: "extends w w1" by (rule rewrite_block_ops_extends)
  from rwe 2 have e2: "extends w1 w'" by (rule rewrite_blocks_extends)
  note t = newly_offered_trans[OF e1 e2]
  show ?case
  proof (cases "b = c")
    case True
    with x rewrite_block_ops_offers[OF rw 1, of x] t show ?thesis by auto
  next
    case False
    with Cons.prems(2) have "b \<in> set cs" by simp
    from Cons.IH[OF 2 this] t show ?thesis by auto
  qed
qed

lemma rewrite_regions_offers:
  assumes rw: "offers_kind rw"
    and r: "rewrite_regions rw w rs acc = Some (Inr (new, w'))"
    and rg: "rg \<in> set rs" and b: "b \<in> set (blocks rg)" and x: "x \<in> set (ops b)"
  shows "kind x \<in> kind ` set (newly_offered w w')"
  using r rg
proof (induction rs arbitrary: w acc)
  case Nil
  then show ?case by simp
next
  case (Cons c cs)
  from Cons.prems(1) obtain r1 w1 where
    1: "rewrite_blocks rw w (blocks c) Region_init = Some (Inr (r1, w1))" and
    2: "rewrite_regions rw w1 cs (acc @ [r1]) = Some (Inr (new, w'))"
    by (auto simp: and_then_Inr_iff)
  have rwe: "\<And>w x out w'. rw w x = Some (Inr (out, w')) \<Longrightarrow> extends w w'"
    using rw by (auto simp: offers_kind_def)
  from rwe 1 have e1: "extends w w1" by (rule rewrite_blocks_extends)
  from rwe 2 have e2: "extends w1 w'" by (rule rewrite_regions_extends)
  note t = newly_offered_trans[OF e1 e2]
  show ?case
  proof (cases "rg = c")
    case True
    with b x rewrite_blocks_offers[OF rw 1, of b x] t show ?thesis by auto
  next
    case False
    with Cons.prems(2) have "rg \<in> set cs" by simp
    from Cons.IH[OF 2 this] t show ?thesis by auto
  qed
qed

lemma rewrite_op_order:
  assumes "rewrite_op (Suc n) w op = Some (Inr (out, w'))"
  shows "(walk_regions_first w \<longrightarrow>
           (\<exists>op1 w1. rewrite_op_regions n w op = Some (Inr (op1, w1)) \<and>
              prefix (offered w) (offered w1) \<and> prefix (offered w1 @ [op1]) (offered w'))) \<and>
         (\<not> walk_regions_first w \<longrightarrow>
           prefix (offered w @ [op]) (offered w') \<and>
           (pattern w op (get_new_operands (updater w) op) = None \<longrightarrow>
              (\<exists>op3. rewrite_op_regions n (w\<lparr>offered := offered w @ [op]\<rparr>)
                        (update_operands (updater w) op) = Some (Inr (op3, w')) \<and>
                     out = [op3])) \<and>
           (\<forall>a. pattern w op (get_new_operands (updater w) op) = Some a \<longrightarrow>
              (\<exists>u. bookkeep_results (updater w) op a = Inr u \<and>
                   rewrite_new_ops (rewrite_op n) (w\<lparr>offered := offered w @ [op], updater := u\<rparr>)
                     (new_ops a) [] = Some (Inr (out, w')))))"
proof -
  have rw: "\<And>w x out w'. rewrite_op n w x = Some (Inr (out, w')) \<Longrightarrow> extends w w'"
    by (rule rewrite_op_extends)
  from assms obtain op1 w1 where
    pre: "(if walk_regions_first w then rewrite_op_regions n w op else Some (Inr (op, w)))
            = Some (Inr (op1, w1))"
    and rest: "(case pattern w1 op1 (get_new_operands (updater w1) op1) of
            Some a \<Rightarrow>
              (case bookkeep_results (updater w1) op1 a of
                 Inl e \<Rightarrow> Some (Inl e)
               | Inr u \<Rightarrow>
                   rewrite_new_ops (rewrite_op n)
                     (w1\<lparr>offered := offered w1 @ [op1], updater := u\<rparr>) (new_ops a) [])
          | None \<Rightarrow>
              if walk_regions_first w1
              then Some (Inr ([update_operands (updater w1) op1], w1\<lparr>offered := offered w1 @ [op1]\<rparr>))
              else and_then
                     (rewrite_op_regions n (w1\<lparr>offered := offered w1 @ [op1]\<rparr>)
                        (update_operands (updater w1) op1))
                     (\<lambda>(op3, w3). Some (Inr ([op3], w3)))) = Some (Inr (out, w'))"
    unfolding rewrite_op_Suc by (auto simp: and_then_Inr_iff)
  have later: "extends (w1\<lparr>offered := offered w1 @ [op1]\<rparr>) w'"
  proof (cases "pattern w1 op1 (get_new_operands (updater w1) op1)")
    case None
    with rest show ?thesis
      using rewrite_op_regions_frame[of n "w1\<lparr>offered := offered w1 @ [op1]\<rparr>"
          "update_operands (updater w1) op1" _ w']
      by (auto simp: and_then_Inr_iff split: if_splits)
  next
    case (Some a)
    with rest obtain u where
      r: "rewrite_new_ops (rewrite_op n)
            (w1\<lparr>offered := offered w1 @ [op1], updater := u\<rparr>) (new_ops a) [] = Some (Inr (out, w'))"
      by (auto split: sum.splits)
    from rw r have "extends (w1\<lparr>offered := offered w1 @ [op1], updater := u\<rparr>) w'"
      by (rule rewrite_new_ops_extends)
    then show ?thesis by (simp add: extends_def)
  qed
  then have pl: "prefix (offered w1 @ [op1]) (offered w')"
    by (simp add: extends_def)
  have a: "\<exists>op1 w1. rewrite_op_regions n w op = Some (Inr (op1, w1)) \<and>
              prefix (offered w) (offered w1) \<and> prefix (offered w1 @ [op1]) (offered w')"
    if "walk_regions_first w"
  proof -
    from that pre have r: "rewrite_op_regions n w op = Some (Inr (op1, w1))" by simp
    from rewrite_op_regions_frame[OF r] have "prefix (offered w) (offered w1)"
      by (simp add: extends_def)
    with r pl show ?thesis by blast
  qed
  have b: "prefix (offered w @ [op]) (offered w') \<and>
           (pattern w op (get_new_operands (updater w) op) = None \<longrightarrow>
              (\<exists>op3. rewrite_op_regions n (w\<lparr>offered := offered w @ [op]\<rparr>)
                        (update_operands (updater w) op) = Some (Inr (op3, w')) \<and>
                     out = [op3])) \<and>
           (\<forall>a. pattern w op (get_new_operands (updater w) op) = Some a \<longrightarrow>
              (\<exists>u. bookkeep_results (updater w) op a = Inr u \<and>
                   rewrite_new_ops (rewrite_op n) (w\<lparr>offered := offered w @ [op], updater := u\<rparr>)
                     (new_ops a) [] = Some (Inr (out, w'))))"
    if f: "\<not> walk_regions_first w"
  proof -
    from f pre have e: "op1 = op" "w1 = w" by simp_all
    from rest f show ?thesis
      using pl unfolding e
      by (auto simp: and_then_Inr_iff split: option.splits sum.splits)
  qed
  from a b show ?thesis by blast
qed

lemma in_drop_prefix:
  assumes "prefix (xs @ [x]) zs" "prefix ys xs"
  shows "x \<in> set (drop (length ys) zs)"
proof -
  from assms obtain a b where "zs = (xs @ [x]) @ a" "xs = ys @ b"
    by (auto simp: prefix_def)
  then show ?thesis by simp
qed

lemma rewrite_op_offers_kind: "offers_kind (rewrite_op n)"
  unfolding offers_kind_def
proof (intro allI impI)
  fix w x out w'
  assume r: "rewrite_op n w x = Some (Inr (out, w'))"
  then obtain k where n: "n = Suc k" by (cases n) auto
  have e: "extends w w'" using r by (rule rewrite_op_extends)
  have "\<exists>x1. kind x1 = kind x \<and> x1 \<in> set (drop (length (offered w)) (offered w'))"
  proof (cases "walk_regions_first w")
    case True
    with rewrite_op_order[OF r[unfolded n]] obtain op1 w1 where
      1: "rewrite_op_regions k w x = Some (Inr (op1, w1))" and
      2: "prefix (offered w) (offered w1)" and
      3: "prefix (offered w1 @ [op1]) (offered w')"
      by blast
    from rewrite_op_regions_frame[OF 1] have "kind op1 = kind x" by auto
    with in_drop_prefix[OF 3 2] show ?thesis by blast
  next
    case False
    with rewrite_op_order[OF r[unfolded n]]
    have "prefix (offered w @ [x]) (offered w')" by blast
    from in_drop_prefix[OF this, of "offered w"] show ?thesis by auto
  qed
  then have "kind x \<in> kind ` set (newly_offered w w')"
    by (auto simp: newly_offered_def intro: rev_image_eqI)
  with e show "extends w w' \<and> kind x \<in> kind ` set (newly_offered w w')" by simp
qed

lemma rewrite_op_regions_offers:
  assumes "rewrite_op_regions n w op = Some (Inr (op1, w1))"
    and "rg \<in> set (regions op)" "b \<in> set (blocks rg)" "x \<in> set (ops b)"
  shows "kind x \<in> kind ` set (drop (length (offered w)) (offered w1))"
proof -
  from assms(1) obtain new where
    "rewrite_regions (rewrite_op n) w (regions op) [] = Some (Inr (new, w1))"
    by (auto simp: rewrite_op_regions_Inr)
  from rewrite_regions_offers[OF rewrite_op_offers_kind this assms(2,3,4)]
  show ?thesis by (simp add: newly_offered_def)
qed

text \<open>
  C8. Whenever \<^verbatim>\<open>rewrite_op(op)\<close> returns: with \<^verbatim>\<open>walk_regions_first\<close> set, the regions of
  \<open>op\<close> are rebuilt first, an operation of the kind of each operation nested in them is
  offered during that rebuild, and \<open>op\<close> (as rebuilt, \<open>op1\<close>) is offered after all of
  these; with the flag unset, \<open>op\<close> is the first operation offered, the regions are
  rebuilt after it when the pattern did not match, the nested operations being offered
  then, and on a match only the new operations of the action are rewritten. For a
  module holding one operation the kinds offered are the inner one then the module in
  the first order, the module then the inner one in the second.
\<close>

theorem regions_first_offers_inner_operations_first:
  assumes "rewrite_op (Suc n) w op = Some (Inr (out, w'))"
  shows "(walk_regions_first w \<longrightarrow>
           (\<exists>op1 w1. rewrite_op_regions n w op = Some (Inr (op1, w1)) \<and> kind op1 = kind op \<and>
              prefix (offered w) (offered w1) \<and>
              (\<forall>r\<in>set (regions op). \<forall>b\<in>set (blocks r). \<forall>x\<in>set (ops b).
                 kind x \<in> kind ` set (drop (length (offered w)) (offered w1))) \<and>
              prefix (offered w1 @ [op1]) (offered w'))) \<and>
         (\<not> walk_regions_first w \<longrightarrow>
           prefix (offered w @ [op]) (offered w') \<and>
           (pattern w op (get_new_operands (updater w) op) = None \<longrightarrow>
              (\<exists>op3. rewrite_op_regions n (w\<lparr>offered := offered w @ [op]\<rparr>)
                        (update_operands (updater w) op) = Some (Inr (op3, w')) \<and>
                     out = [op3]) \<and>
              (\<forall>r\<in>set (regions op). \<forall>b\<in>set (blocks r). \<forall>x\<in>set (ops b).
                 kind x \<in> kind ` set (drop (Suc (length (offered w))) (offered w')))) \<and>
           (\<forall>a. pattern w op (get_new_operands (updater w) op) = Some a \<longrightarrow>
              (\<exists>u. bookkeep_results (updater w) op a = Inr u \<and>
                   rewrite_new_ops (rewrite_op n) (w\<lparr>offered := offered w @ [op], updater := u\<rparr>)
                     (new_ops a) [] = Some (Inr (out, w')))))"
proof -
  note o = rewrite_op_order[OF assms]
  have a: "\<exists>op1 w1. rewrite_op_regions n w op = Some (Inr (op1, w1)) \<and> kind op1 = kind op \<and>
              prefix (offered w) (offered w1) \<and>
              (\<forall>r\<in>set (regions op). \<forall>b\<in>set (blocks r). \<forall>x\<in>set (ops b).
                 kind x \<in> kind ` set (drop (length (offered w)) (offered w1))) \<and>
              prefix (offered w1 @ [op1]) (offered w')"
    if "walk_regions_first w"
  proof -
    from o that obtain op1 w1 where
      1: "rewrite_op_regions n w op = Some (Inr (op1, w1))" and
      2: "prefix (offered w) (offered w1)" and
      3: "prefix (offered w1 @ [op1]) (offered w')"
      by blast
    from rewrite_op_regions_frame[OF 1] have k: "kind op1 = kind op" by auto
    from rewrite_op_regions_offers[OF 1]
    have "\<forall>r\<in>set (regions op). \<forall>b\<in>set (blocks r). \<forall>x\<in>set (ops b).
                 kind x \<in> kind ` set (drop (length (offered w)) (offered w1))"
      by blast
    with 1 2 3 k show ?thesis by blast
  qed
  have b: "\<forall>r\<in>set (regions op). \<forall>b\<in>set (blocks r). \<forall>x\<in>set (ops b).
                 kind x \<in> kind ` set (drop (Suc (length (offered w))) (offered w'))"
    if "\<not> walk_regions_first w" "pattern w op (get_new_operands (updater w) op) = None"
  proof -
    from o that obtain op3 where
      1: "rewrite_op_regions n (w\<lparr>offered := offered w @ [op]\<rparr>)
            (update_operands (updater w) op) = Some (Inr (op3, w'))"
      by blast
    have "regions (update_operands (updater w) op) = regions op"
      by (simp add: update_operands_def)
    with rewrite_op_regions_offers[OF 1] show ?thesis by simp
  qed
  from o a b show ?thesis by blast
qed

theorem regions_first_offers_inner_operations_first_witness:
  "rewrite_op 2 (walker_with never_match True) arg_module =
     Some (Inr ([arg_module_rewritten],
                (walker_with never_match True)\<lparr>offered := [ret_op, arg_module_rewritten]\<rparr>)) \<and>
   walk_regions_first (walker_with never_match True) \<and>
   Region [Block [SSAValue 0] [ret_op]] \<in> set (regions arg_module) \<and>
   Block [SSAValue 0] [ret_op] \<in> set (blocks (Region [Block [SSAValue 0] [ret_op]])) \<and>
   ret_op \<in> set (ops (Block [SSAValue 0] [ret_op])) \<and>
   (\<exists>op1 w1. rewrite_op_regions 1 (walker_with never_match True) arg_module = Some (Inr (op1, w1)) \<and>
      kind op1 = kind arg_module \<and>
      prefix (offered (walker_with never_match True)) (offered w1) \<and>
      kind ret_op \<in> kind ` set (drop (length (offered (walker_with never_match True))) (offered w1)) \<and>
      prefix (offered w1 @ [op1]) [ret_op, arg_module_rewritten]) \<and>
   map kind [ret_op, arg_module_rewritten] = [OtherOp ''return'', ModuleOp] \<and>
   rewrite_op 2 (walker_with never_match False) arg_module =
     Some (Inr ([arg_module_rewritten],
                (walker_with never_match False)\<lparr>offered := [arg_module, ret_op]\<rparr>)) \<and>
   \<not> walk_regions_first (walker_with never_match False) \<and>
   pattern (walker_with never_match False) arg_module
     (get_new_operands (updater (walker_with never_match False)) arg_module) = None \<and>
   prefix (offered (walker_with never_match False) @ [arg_module]) [arg_module, ret_op] \<and>
   (\<exists>op3. rewrite_op_regions 1
             ((walker_with never_match False)
                \<lparr>offered := offered (walker_with never_match False) @ [arg_module]\<rparr>)
             (update_operands (updater (walker_with never_match False)) arg_module) =
           Some (Inr (op3, (walker_with never_match False)\<lparr>offered := [arg_module, ret_op]\<rparr>)) \<and>
          [arg_module_rewritten] = [op3]) \<and>
   kind ret_op \<in> kind ` set (drop (Suc (length (offered (walker_with never_match False))))
                                 [arg_module, ret_op]) \<and>
   map kind [arg_module, ret_op] = [ModuleOp, OtherOp ''return''] \<and>
   \<not> walk_regions_first (walker_with cascade_pattern False) \<and>
   pattern (walker_with cascade_pattern False) op_a
     (get_new_operands (updater (walker_with cascade_pattern False)) op_a) = Some action_a \<and>
   rewrite_op 3 (walker_with cascade_pattern False) op_a =
     Some (Inr ([op_d, set_operands op_c [SSAValue 6]], cascade_final)) \<and>
   (\<exists>u. bookkeep_results (updater (walker_with cascade_pattern False)) op_a action_a = Inr u \<and>
        rewrite_new_ops (rewrite_op 2)
          ((walker_with cascade_pattern False)
             \<lparr>offered := offered (walker_with cascade_pattern False) @ [op_a], updater := u\<rparr>)
          (new_ops action_a) [] =
        Some (Inr ([op_d, set_operands op_c [SSAValue 6]], cascade_final)))"
proof -
  have ft: "walk_regions_first (walker_with never_match True)"
    and ff: "\<not> walk_regions_first (walker_with never_match False)"
    and fc: "\<not> walk_regions_first (walker_with cascade_pattern False)"
    by (simp_all add: walker_with_def)
  have m1: "Region [Block [SSAValue 0] [ret_op]] \<in> set (regions arg_module)"
    and m2: "Block [SSAValue 0] [ret_op] \<in> set (blocks (Region [Block [SSAValue 0] [ret_op]]))"
    and m3: "ret_op \<in> set (ops (Block [SSAValue 0] [ret_op]))"
    by (simp_all add: arg_module_def)
  have wt: "rewrite_op (Suc 1) (walker_with never_match True) arg_module =
     Some (Inr ([arg_module_rewritten],
                (walker_with never_match True)\<lparr>offered := [ret_op, arg_module_rewritten]\<rparr>))"
    using arg_module_walk_regions_first by (simp add: numeral_2_eq_2)
  have wf: "rewrite_op (Suc 1) (walker_with never_match False) arg_module =
     Some (Inr ([arg_module_rewritten],
                (walker_with never_match False)\<lparr>offered := [arg_module, ret_op]\<rparr>))"
    using arg_module_walk by (simp add: numeral_2_eq_2)
  have wc: "rewrite_op (Suc 2) (walker_with cascade_pattern False) op_a =
     Some (Inr ([op_d, set_operands op_c [SSAValue 6]], cascade_final))"
    using cascade_walk by (simp add: numeral_3_eq_3 numeral_2_eq_2)
  have nf: "pattern (walker_with never_match False) arg_module
     (get_new_operands (updater (walker_with never_match False)) arg_module) = None"
    by (simp add: walker_with_def never_match_def)
  have mc: "pattern (walker_with cascade_pattern False) op_a
     (get_new_operands (updater (walker_with cascade_pattern False)) op_a) = Some action_a"
    by (simp add: walker_with_def cascade_pattern_def op_a_def plain_op_def)
  have k1: "map kind [ret_op, arg_module_rewritten] = [OtherOp ''return'', ModuleOp]"
    and k2: "map kind [arg_module, ret_op] = [ModuleOp, OtherOp ''return'']"
    by (simp_all add: ret_op_def plain_op_def arg_module_def arg_module_rewritten_def)
  from regions_first_offers_inner_operations_first[OF wt] ft
  obtain op1 w1 where
    a1: "rewrite_op_regions 1 (walker_with never_match True) arg_module = Some (Inr (op1, w1))" and
    a2: "kind op1 = kind arg_module" and
    a3: "prefix (offered (walker_with never_match True)) (offered w1)" and
    a4: "\<forall>r\<in>set (regions arg_module). \<forall>b\<in>set (blocks r). \<forall>x\<in>set (ops b).
           kind x \<in> kind ` set (drop (length (offered (walker_with never_match True))) (offered w1))" and
    a5: "prefix (offered w1 @ [op1]) [ret_op, arg_module_rewritten]"
    by auto
  from a4 m1 m2 m3
  have a6: "kind ret_op \<in> kind ` set (drop (length (offered (walker_with never_match True))) (offered w1))"
    by blast
  from a1 a2 a3 a6 a5
  have c1: "\<exists>op1 w1. rewrite_op_regions 1 (walker_with never_match True) arg_module
                       = Some (Inr (op1, w1)) \<and>
      kind op1 = kind arg_module \<and>
      prefix (offered (walker_with never_match True)) (offered w1) \<and>
      kind ret_op \<in> kind ` set (drop (length (offered (walker_with never_match True))) (offered w1)) \<and>
      prefix (offered w1 @ [op1]) [ret_op, arg_module_rewritten]"
    by blast
  from regions_first_offers_inner_operations_first[OF wf] ff nf
  have c2: "prefix (offered (walker_with never_match False) @ [arg_module]) [arg_module, ret_op]"
    and c3: "\<exists>op3. rewrite_op_regions 1
             ((walker_with never_match False)
                \<lparr>offered := offered (walker_with never_match False) @ [arg_module]\<rparr>)
             (update_operands (updater (walker_with never_match False)) arg_module) =
           Some (Inr (op3, (walker_with never_match False)\<lparr>offered := [arg_module, ret_op]\<rparr>)) \<and>
          [arg_module_rewritten] = [op3]"
    and b4: "\<forall>r\<in>set (regions arg_module). \<forall>b\<in>set (blocks r). \<forall>x\<in>set (ops b).
           kind x \<in> kind ` set (drop (Suc (length (offered (walker_with never_match False))))
                                   [arg_module, ret_op])"
    by simp_all
  from b4 m1 m2 m3
  have c5: "kind ret_op \<in> kind ` set (drop (Suc (length (offered (walker_with never_match False))))
                                 [arg_module, ret_op])"
    by blast
  from regions_first_offers_inner_operations_first[OF wc] fc mc
  have c4: "\<exists>u. bookkeep_results (updater (walker_with cascade_pattern False)) op_a action_a = Inr u \<and>
        rewrite_new_ops (rewrite_op 2)
          ((walker_with cascade_pattern False)
             \<lparr>offered := offered (walker_with cascade_pattern False) @ [op_a], updater := u\<rparr>)
          (new_ops action_a) [] =
        Some (Inr ([op_d, set_operands op_c [SSAValue 6]], cascade_final))"
    by simp
  from arg_module_walk_regions_first ft m1 m2 m3 c1 k1 arg_module_walk ff nf c2 c3 c5 k2
    fc mc cascade_walk c4
  show ?thesis by blast
qed

end
